theory Spec2Isabelle
  imports Complex_Main "HOL-Library.Sublist"
begin

section \<open>Strings of the program\<close>

text \<open>
  The TypeScript sources work on JavaScript strings, which are sequences of UTF-16 code
  units. A string is modelled as a \<^typ>\<open>char list\<close>; one \<^typ>\<open>char\<close> stands for one code unit
  below 256, so the model covers every text whose code units are below 256 (ASCII and
  Latin-1). The character classes below are the classes of JavaScript regular expressions
  without the \<open>u\<close> flag, cut down to that range.
\<close>

definition isSpace :: "char \<Rightarrow> bool" where
  \<comment> \<open>the class \<open>\s\<close>, which is also what \<open>trim\<close> strips: TAB, LF, VT, FF, CR, SPACE, NBSP\<close>
  "isSpace c = (c \<in> set [CHR 0x09, CHR 0x0A, CHR 0x0B, CHR 0x0C, CHR 0x0D, CHR 0x20, CHR 0xA0])"

definition isLineTerminator :: "char \<Rightarrow> bool" where
  \<comment> \<open>the characters that \<open>.\<close> does not match: LF and CR\<close>
  "isLineTerminator c = (c \<in> set [CHR 0x0A, CHR 0x0D])"

definition isDigit :: "char \<Rightarrow> bool" where
  "isDigit c = (c \<in> set ''0123456789'')"

definition isUpperAZ :: "char \<Rightarrow> bool" where
  "isUpperAZ c = (c \<in> set ''ABCDEFGHIJKLMNOPQRSTUVWXYZ'')"

definition isLowerAZ :: "char \<Rightarrow> bool" where
  "isLowerAZ c = (c \<in> set ''abcdefghijklmnopqrstuvwxyz'')"

definition isWord :: "char \<Rightarrow> bool" where
  \<comment> \<open>the class \<open>\w\<close>\<close>
  "isWord c = (isLowerAZ c \<or> isUpperAZ c \<or> isDigit c \<or> c = CHR ''_'')"

definition upperChars :: string where
  "upperChars = ''ABCDEFGHIJKLMNOPQRSTUVWXYZ'' @
     [CHR 0xC0, CHR 0xC1, CHR 0xC2, CHR 0xC3, CHR 0xC4, CHR 0xC5, CHR 0xC6, CHR 0xC7,
      CHR 0xC8, CHR 0xC9, CHR 0xCA, CHR 0xCB, CHR 0xCC, CHR 0xCD, CHR 0xCE, CHR 0xCF,
      CHR 0xD0, CHR 0xD1, CHR 0xD2, CHR 0xD3, CHR 0xD4, CHR 0xD5, CHR 0xD6,
      CHR 0xD8, CHR 0xD9, CHR 0xDA, CHR 0xDB, CHR 0xDC, CHR 0xDD, CHR 0xDE]"

definition lowerChars :: string where
  "lowerChars = ''abcdefghijklmnopqrstuvwxyz'' @
     [CHR 0xE0, CHR 0xE1, CHR 0xE2, CHR 0xE3, CHR 0xE4, CHR 0xE5, CHR 0xE6, CHR 0xE7,
      CHR 0xE8, CHR 0xE9, CHR 0xEA, CHR 0xEB, CHR 0xEC, CHR 0xED, CHR 0xEE, CHR 0xEF,
      CHR 0xF0, CHR 0xF1, CHR 0xF2, CHR 0xF3, CHR 0xF4, CHR 0xF5, CHR 0xF6,
      CHR 0xF8, CHR 0xF9, CHR 0xFA, CHR 0xFB, CHR 0xFC, CHR 0xFD, CHR 0xFE]"

definition toLowerCase :: "string \<Rightarrow> string" where
  \<comment> \<open>\<open>String.prototype.toLowerCase\<close> on code units below 256\<close>
  "toLowerCase s =
     map (\<lambda>c. case map_of (zip upperChars lowerChars) c of Some l \<Rightarrow> l | None \<Rightarrow> c) s"

definition asciiLower :: "string \<Rightarrow> string" where
  \<comment> \<open>the case folding of the \<open>i\<close> flag: only A to Z fold onto ASCII letters\<close>
  "asciiLower s =
     map (\<lambda>c. case map_of (zip (take 26 upperChars) (take 26 lowerChars)) c of
                 Some l \<Rightarrow> l | None \<Rightarrow> c) s"

definition trim :: "string \<Rightarrow> string" where
  "trim s = rev (dropWhile isSpace (rev (dropWhile isSpace s)))"

fun includesStr :: "string \<Rightarrow> string \<Rightarrow> bool" where
  \<comment> \<open>\<open>s.includes(k)\<close>\<close>
  "includesStr [] k = (k = [])"
| "includesStr (c # cs) k = (prefix k (c # cs) \<or> includesStr cs k)"

fun join :: "string \<Rightarrow> string list \<Rightarrow> string" where
  \<comment> \<open>\<open>xs.join(sep)\<close>\<close>
  "join sep [] = []"
| "join sep [x] = x"
| "join sep (x # y # ys) = x @ sep @ join sep (y # ys)"

text \<open>
  \<open>s.split(re)\<close> for a regular expression that never matches the empty string. The
  matcher \<open>m prev rest\<close> tells how many characters the expression consumes at the current
  position (\<open>prev\<close> is the character before it, for a lookbehind), or \<open>None\<close> when it does
  not match there. The search goes left to right, takes the leftmost match, and resumes
  after it; the text after the last match is the last piece.
\<close>

function splitAcc ::
  "(char option \<Rightarrow> string \<Rightarrow> nat option) \<Rightarrow> char option \<Rightarrow> string \<Rightarrow> string \<Rightarrow> string list"
where
  "splitAcc m prev acc [] = [rev acc]"
| "splitAcc m prev acc (c # cs) =
     (case m prev (c # cs) of
        None \<Rightarrow> splitAcc m (Some c) (c # acc) cs
      | Some k \<Rightarrow>
          if 0 < k \<and> k \<le> length (c # cs)
          then rev acc # splitAcc m (Some ((c # cs) ! (k - 1))) [] (drop k (c # cs))
          else splitAcc m (Some c) (c # acc) cs)"
  by pat_completeness auto
termination
  by (relation "measure (\<lambda>(m, prev, acc, s). length s)") auto

definition split :: "(char option \<Rightarrow> string \<Rightarrow> nat option) \<Rightarrow> string \<Rightarrow> string list" where
  "split m s = splitAcc m None [] s"

text \<open>
  \<open>s.replace(re, ...)\<close> with the \<open>g\<close> flag, for a regular expression that never matches the
  empty string and looks at nothing before the position it is tried at. The matcher gives the
  replacement text and the input left after the match.
\<close>

function replaceAll :: "(string \<Rightarrow> (string \<times> string) option) \<Rightarrow> string \<Rightarrow> string" where
  "replaceAll m [] = []"
| "replaceAll m (c # cs) =
     (case m (c # cs) of
        None \<Rightarrow> c # replaceAll m cs
      | Some (rep, rest) \<Rightarrow>
          if length rest \<le> length cs then rep @ replaceAll m rest
          else c # replaceAll m cs)"
  by pat_completeness auto
termination
  by (relation "measure (\<lambda>(m, s). length s)") auto

subsection \<open>The separators used by \<open>split\<close>\<close>

definition reNewlines2 :: "char option \<Rightarrow> string \<Rightarrow> nat option" where
  \<comment> \<open>\<open>/\n{2,}/\<close>\<close>
  "reNewlines2 prev s =
     (let k = length (takeWhile (\<lambda>c. c = CHR 0x0A) s) in if 2 \<le> k then Some k else None)"

definition reNewline :: "char option \<Rightarrow> string \<Rightarrow> nat option" where
  \<comment> \<open>\<open>/\n/\<close>\<close>
  "reNewline prev s = (case s of [] \<Rightarrow> None | c # _ \<Rightarrow> if c = CHR 0x0A then Some 1 else None)"

definition reSpaces :: "char option \<Rightarrow> string \<Rightarrow> nat option" where
  \<comment> \<open>\<open>/\s+/\<close>\<close>
  "reSpaces prev s =
     (let k = length (takeWhile isSpace s) in if 1 \<le> k then Some k else None)"

definition reSentenceEnd :: "char option \<Rightarrow> string \<Rightarrow> nat option" where
  \<comment> \<open>\<open>/(?<=[.!?])\s+/\<close>\<close>
  "reSentenceEnd prev s =
     (case prev of
        None \<Rightarrow> None
      | Some p \<Rightarrow>
          if p \<in> set ''.!?'' then
            (let k = length (takeWhile isSpace s) in if 1 \<le> k then Some k else None)
          else None)"

definition rePunctRun :: "char option \<Rightarrow> string \<Rightarrow> nat option" where
  \<comment> \<open>\<open>/[.!?]+/\<close>\<close>
  "rePunctRun prev s =
     (let k = length (takeWhile (\<lambda>c. c \<in> set ''.!?'') s) in if 1 \<le> k then Some k else None)"

subsection \<open>Decimal numbers\<close>

function showNat :: "nat \<Rightarrow> string" where
  \<comment> \<open>a non-negative integer inside a template literal\<close>
  "showNat n =
     (if n < 10 then [''0123456789'' ! n] else showNat (n div 10) @ [''0123456789'' ! (n mod 10)])"
  by pat_completeness auto
termination
  by (relation "measure id") auto

definition digitVal :: "char \<Rightarrow> nat" where
  "digitVal c = (case map_of (zip ''0123456789'' [0 ..< 10]) c of Some d \<Rightarrow> d | None \<Rightarrow> 0)"

definition parseInt :: "string \<Rightarrow> nat" where
  \<comment> \<open>\<open>parseInt(ds, 10)\<close> on a non-empty string of digits; the value is kept exact\<close>
  "parseInt ds = foldl (\<lambda>n c. 10 * n + digitVal c) 0 ds"

section \<open>The sectioner: \<open>splitChapters\<close>\<close>

record Section =
  id_sec :: string
  sourceId :: string
  title :: string
  startPage :: "nat option"
  endPage :: "nat option"
  text_sec :: string
  tokensEstimated :: nat

definition estimateTokens :: "string \<Rightarrow> nat" where
  \<comment> \<open>\<open>Math.ceil(s.length / 4)\<close>\<close>
  "estimateTokens s = (length s + 3) div 4"

subsection \<open>\<open>cleanTextContent\<close>\<close>

definition reHyphenBreak :: "string \<Rightarrow> (string \<times> string) option" where
  \<comment> \<open>\<open>/(\w+)-\s*\n\s*(\w+)/\<close> replaced by \<open>$1$2\<close>: a word, a hyphen, white space that holds a
      line feed, a word\<close>
  "reHyphenBreak s =
     (let w1 = takeWhile isWord s; r1 = dropWhile isWord s in
      if w1 = [] then None else
      case r1 of
        [] \<Rightarrow> None
      | h # r2 \<Rightarrow>
          if h \<noteq> CHR ''-'' then None else
          let gap = takeWhile isSpace r2; r3 = dropWhile isSpace r2;
              w2 = takeWhile isWord r3 in
          if CHR 0x0A \<in> set gap \<and> w2 \<noteq> [] then Some (w1 @ w2, dropWhile isWord r3) else None)"

definition reSpaceBeforePunct :: "string \<Rightarrow> (string \<times> string) option" where
  \<comment> \<open>\<open>/\s+([,.!?;:])/\<close> replaced by \<open>$1\<close>\<close>
  "reSpaceBeforePunct s =
     (if takeWhile isSpace s = [] then None else
      case dropWhile isSpace s of
        [] \<Rightarrow> None
      | p # rest \<Rightarrow> if p \<in> set '',.!?;:'' then Some ([p], rest) else None)"

definition reSpaces2 :: "string \<Rightarrow> (string \<times> string) option" where
  \<comment> \<open>\<open>/\s{2,}/\<close> replaced by one space\<close>
  "reSpaces2 s =
     (if 2 \<le> length (takeWhile isSpace s) then Some ('' '', dropWhile isSpace s) else None)"

definition reBlankLines :: "string \<Rightarrow> (string \<times> string) option" where
  \<comment> \<open>\<open>/\n\s*\n/\<close> replaced by two line feeds: from a line feed to the last line feed of the
      white space that follows it\<close>
  "reBlankLines s =
     (case s of
        [] \<Rightarrow> None
      | c # r \<Rightarrow>
          if c \<noteq> CHR 0x0A then None else
          let gap = takeWhile isSpace r in
          if CHR 0x0A \<in> set gap
          then Some ([CHR 0x0A, CHR 0x0A],
                     drop (length gap - length (takeWhile (\<lambda>x. x \<noteq> CHR 0x0A) (rev gap))) r)
          else None)"

definition cleanTextContent :: "string \<Rightarrow> string" where
  "cleanTextContent t =
     trim (replaceAll reBlankLines (replaceAll reSpaces2
       (replaceAll reSpaceBeforePunct (replaceAll reHyphenBreak t))))"

subsection \<open>Page markers\<close>

definition pageMarker :: "nat \<Rightarrow> string" where
  \<comment> \<open>the template \<open>[[PAGE:${n}]]\<close>\<close>
  "pageMarker n = ''[[PAGE:'' @ showNat n @ '']]''"

definition stripPrefix :: "string \<Rightarrow> string \<Rightarrow> string option" where
  "stripPrefix p s = (if prefix p s then Some (drop (length p) s) else None)"

definition matchPageMarker :: "string \<Rightarrow> (string \<times> string) option" where
  \<comment> \<open>\<open>\[\[PAGE:(\d+)\]\]\<close> at the start of the string: the digits and what follows the match\<close>
  "matchPageMarker s =
     (case stripPrefix ''[[PAGE:'' s of
        None \<Rightarrow> None
      | Some r \<Rightarrow>
          if takeWhile isDigit r = [] then None else
          case stripPrefix '']]'' (dropWhile isDigit r) of
            None \<Rightarrow> None
          | Some rest \<Rightarrow> Some (takeWhile isDigit r, rest))"

fun firstPageOf :: "string \<Rightarrow> nat option" where
  \<comment> \<open>the leftmost match of \<open>/\[\[PAGE:(\d+)\]\]/\<close>, its number parsed\<close>
  "firstPageOf [] = None"
| "firstPageOf (c # cs) =
     (case matchPageMarker (c # cs) of
        Some m \<Rightarrow> Some (parseInt (fst m))
      | None \<Rightarrow> firstPageOf cs)"

subsection \<open>\<open>isLikelyHeader\<close>\<close>

definition contentPattern1 :: "string \<Rightarrow> bool" where
  \<comment> \<open>\<open>/^\s*\d+\s*$/\<close>\<close>
  "contentPattern1 s =
     (let r = dropWhile isSpace s in
      takeWhile isDigit r \<noteq> [] \<and> dropWhile isSpace (dropWhile isDigit r) = [])"

definition contentPattern2 :: "string \<Rightarrow> bool" where
  \<comment> \<open>\<open>/^[\s\.\-_]{3,}$/\<close>\<close>
  "contentPattern2 s = (3 \<le> length s \<and> list_all (\<lambda>c. isSpace c \<or> c \<in> set ''.-_'') s)"

definition contentPattern3 :: "string \<Rightarrow> bool" where
  \<comment> \<open>\<open>/^\[\[PAGE:\d+\]\]$/\<close>\<close>
  "contentPattern3 s = (case matchPageMarker s of Some m \<Rightarrow> snd m = [] | None \<Rightarrow> False)"

definition dotPlusToEnd :: "string \<Rightarrow> bool" where
  \<comment> \<open>\<open>.+$\<close> matches the whole string\<close>
  "dotPlusToEnd s = (s \<noteq> [] \<and> list_all (\<lambda>c. \<not> isLineTerminator c) s)"

fun greedyThenRest :: "nat \<Rightarrow> string \<Rightarrow> string option" where
  \<comment> \<open>a greedy \<open>C+\<close> in front of \<open>(.+)$\<close>, where the string starts with \<open>k\<close> characters of the
      class \<open>C\<close>: the class takes \<open>k\<close> characters, then \<open>k - 1\<close>, down to one, until the rest
      is matched by \<open>.+$\<close>; the result is that rest\<close>
  "greedyThenRest 0 s = None"
| "greedyThenRest (Suc j) s =
     (if dotPlusToEnd (drop (Suc j) s) then Some (drop (Suc j) s) else greedyThenRest j s)"

fun stripKeyword :: "string list \<Rightarrow> string \<Rightarrow> string option" where
  \<comment> \<open>an alternation of literal words under the \<open>i\<close> flag, at the start of the string\<close>
  "stripKeyword [] s = None"
| "stripKeyword (k # ks) s =
     (if asciiLower (take (length k) s) = k then Some (drop (length k) s) else stripKeyword ks s)"

definition isRoman :: "char \<Rightarrow> bool" where
  \<comment> \<open>\<open>[ivxlcdm]\<close> under the \<open>i\<close> flag\<close>
  "isRoman c = (c \<in> set ''ivxlcdmIVXLCDM'')"

definition chapterPattern1 :: "string \<Rightarrow> string option" where
  \<comment> \<open>\<open>/^(chapter|section|part|unit)\s+([ivxlcdm]+|\d+)[\s\.:]+(.+)$/i\<close>; the result is group 3\<close>
  "chapterPattern1 s =
     (case stripKeyword [''chapter'', ''section'', ''part'', ''unit''] s of
        None \<Rightarrow> None
      | Some r1 \<Rightarrow>
          if takeWhile isSpace r1 = [] then None else
          let r2 = dropWhile isSpace r1;
              num = (if takeWhile isRoman r2 \<noteq> [] then takeWhile isRoman r2
                     else takeWhile isDigit r2) in
          if num = [] then None else
          let r3 = drop (length num) r2 in
          greedyThenRest (length (takeWhile (\<lambda>c. isSpace c \<or> c \<in> set ''.:'') r3)) r3)"

definition chapterPattern2 :: "string \<Rightarrow> string option" where
  \<comment> \<open>\<open>/^(\d+[\.\)]\s+.+)$/\<close>; the result is group 1, the whole line\<close>
  "chapterPattern2 s =
     (if takeWhile isDigit s = [] then None else
      case dropWhile isDigit s of
        [] \<Rightarrow> None
      | p # r \<Rightarrow>
          if p \<in> set ''.)'' \<and> greedyThenRest (length (takeWhile isSpace r)) r \<noteq> None
          then Some s else None)"

definition chapterPattern3 :: "string \<Rightarrow> string option" where
  \<comment> \<open>\<open>/^([A-Z][A-Z\s:'\-]{10,80})$/\<close>\<close>
  "chapterPattern3 s =
     (case s of
        [] \<Rightarrow> None
      | c # r \<Rightarrow>
          if isUpperAZ c \<and> 10 \<le> length r \<and> length r \<le> 80 \<and>
             list_all (\<lambda>x. isUpperAZ x \<or> isSpace x \<or> x \<in> set [CHR '':'', CHR 0x27, CHR ''-'']) r
          then Some s else None)"

definition chapterPattern4 :: "string \<Rightarrow> string option" where
  \<comment> \<open>\<open>/^#{1,3}\s+(.+)$/\<close>; the result is group 1\<close>
  "chapterPattern4 s =
     (let h = length (takeWhile (\<lambda>c. c = CHR ''#'') s); r = drop h s in
      if 1 \<le> h \<and> h \<le> 3 then greedyThenRest (length (takeWhile isSpace r)) r else None)"

definition dotLeaderTail :: "string \<Rightarrow> bool" where
  \<comment> \<open>\<open>\s+\.{3,}\s*\d+$\<close> matches the whole string\<close>
  "dotLeaderTail r =
     (let r1 = dropWhile isSpace r; r2 = dropWhile (\<lambda>c. c = CHR ''.'') r1;
          r3 = dropWhile isSpace r2 in
      takeWhile isSpace r \<noteq> [] \<and> 3 \<le> length (takeWhile (\<lambda>c. c = CHR ''.'') r1) \<and>
      r3 \<noteq> [] \<and> list_all isDigit r3)"

fun chapterPattern5At :: "nat \<Rightarrow> string \<Rightarrow> string option" where
  \<comment> \<open>the greedy \<open>(.+)\<close> of pattern 5 gives back one character at a time: the longest prefix
      of at most \<open>i\<close> characters that \<open>.+\<close> matches and that the dot leader follows\<close>
  "chapterPattern5At 0 s = None"
| "chapterPattern5At (Suc i) s =
     (if dotPlusToEnd (take (Suc i) s) \<and> dotLeaderTail (drop (Suc i) s) then Some (take (Suc i) s)
      else chapterPattern5At i s)"

definition chapterPattern5 :: "string \<Rightarrow> string option" where
  \<comment> \<open>\<open>/^(.+)\s+\.{3,}\s*\d+$/\<close>; the result is group 1\<close>
  "chapterPattern5 s = chapterPattern5At (length s) s"

definition chapterPattern6 :: "string \<Rightarrow> string option" where
  \<comment> \<open>\<open>/^([A-Z][a-z\s:]+[A-Z][a-z\s:]{5,})$/\<close>\<close>
  "chapterPattern6 s =
     (let low = (\<lambda>c. isLowerAZ c \<or> isSpace c \<or> c = CHR '':'') in
      case s of
        [] \<Rightarrow> None
      | c # r \<Rightarrow>
          if \<not> isUpperAZ c \<or> takeWhile low r = [] then None else
          case dropWhile low r of
            [] \<Rightarrow> None
          | d # r2 \<Rightarrow>
              if isUpperAZ d \<and> 5 \<le> length r2 \<and> list_all low r2 then Some s else None)"

definition chapterPattern7 :: "string \<Rightarrow> string option" where
  \<comment> \<open>\<open>/^(introduction|conclusion|summary|abstract|preface|acknowledgments?)$/i\<close>\<close>
  "chapterPattern7 s =
     (if asciiLower s \<in> set [''introduction'', ''conclusion'', ''summary'', ''abstract'',
                              ''preface'', ''acknowledgment'', ''acknowledgments'']
      then Some s else None)"

definition chapterPatterns :: "(string \<Rightarrow> string option) list" where
  "chapterPatterns = [chapterPattern1, chapterPattern2, chapterPattern3, chapterPattern4,
                      chapterPattern5, chapterPattern6, chapterPattern7]"

fun firstMatch :: "(string \<Rightarrow> string option) list \<Rightarrow> string \<Rightarrow> string option" where
  \<comment> \<open>the \<open>for\<close> loop over the patterns: the first one that matches decides\<close>
  "firstMatch [] s = None"
| "firstMatch (p # ps) s = (case p s of Some t \<Rightarrow> Some t | None \<Rightarrow> firstMatch ps s)"

definition stripHashes :: "string \<Rightarrow> string" where
  \<comment> \<open>\<open>title.replace(/^#+\s*/, '')\<close>\<close>
  "stripHashes t =
     (if takeWhile (\<lambda>c. c = CHR ''#'') t = [] then t
      else dropWhile isSpace (dropWhile (\<lambda>c. c = CHR ''#'') t))"

definition looksLikeTitle :: "string \<Rightarrow> bool" where
  \<comment> \<open>the heuristics after the patterns. The ratio \<open>capitals / length\<close> is a quotient of two
      integers below 100, so comparing it with 0.1 and 0.8 in floating point is comparing
      \<open>10 * capitals\<close> with \<open>length\<close> and with \<open>8 * length\<close>\<close>
  "looksLikeTitle t =
     (let capitals = length (filter isUpperAZ t) in
      5 < length t \<and> length t < 100 \<and> isUpperAZ (hd t) \<and> last t \<notin> set ''.!?'' \<and>
      length t < 10 * capitals \<and> 10 * capitals < 8 * length t)"

definition isLikelyHeader :: "string \<Rightarrow> string option" where
  \<comment> \<open>\<open>None\<close> is \<open>{ isHeader: false }\<close>, \<open>Some t\<close> is \<open>{ isHeader: true, title: t }\<close>\<close>
  "isLikelyHeader line =
     (let trimmed = trim line in
      if contentPattern1 trimmed \<or> contentPattern2 trimmed \<or> contentPattern3 trimmed then None
      else case firstMatch chapterPatterns trimmed of
        Some t \<Rightarrow> Some (trim (stripHashes t))
      | None \<Rightarrow> if looksLikeTitle trimmed then Some trimmed else None)"

subsection \<open>The loop over the blocks\<close>

record Current =
  title_cur :: string
  startPage_cur :: "nat option"
  text_cur :: "string list"

text \<open>
  \<open>crypto.randomUUID()\<close> is the only source of non-determinism. It is a parameter \<open>uuid\<close> of
  the model: \<open>uuid k\<close> is the identifier that the call number \<open>k\<close> returns. Each section
  pushed draws one identifier, so the section pushed onto \<open>k\<close> earlier ones gets \<open>uuid k\<close>.
\<close>

definition flush ::
  "(nat \<Rightarrow> string) \<Rightarrow> string \<Rightarrow> nat option \<Rightarrow> Section list \<times> Current option
     \<Rightarrow> Section list \<times> Current option" where
  "flush uuid src endP st =
     (case snd st of
        None \<Rightarrow> st
      | Some cur \<Rightarrow>
          let cleanedText = cleanTextContent (join [CHR 0x0A, CHR 0x0A] (text_cur cur)) in
          (if 50 < length cleanedText
           then fst st @ [\<lparr> id_sec = uuid (length (fst st)), sourceId = src,
                            title = title_cur cur, startPage = startPage_cur cur,
                            endPage = endP, text_sec = cleanedText,
                            tokensEstimated = estimateTokens cleanedText \<rparr>]
           else fst st,
           None))"

definition headerTitle :: "string \<Rightarrow> string option" where
  \<comment> \<open>the test \<open>headerCheck.isHeader && headerCheck.title\<close> on the first line of a block: an
      empty title is falsy\<close>
  "headerTitle b =
     (case filter (\<lambda>l. trim l \<noteq> []) (split reNewline b) of
        [] \<Rightarrow> None
      | l # ls \<Rightarrow>
          (case isLikelyHeader (trim l) of
             None \<Rightarrow> None
           | Some t \<Rightarrow> if t = [] then None else Some t))"

definition processBlock ::
  "(nat \<Rightarrow> string) \<Rightarrow> string \<Rightarrow> Section list \<times> Current option \<times> nat \<Rightarrow> string
     \<Rightarrow> Section list \<times> Current option \<times> nat" where
  "processBlock uuid src st b =
     (case st of (sections, current, autoIndex) \<Rightarrow>
        if filter (\<lambda>l. trim l \<noteq> []) (split reNewline b) = [] then st
        else case headerTitle b of
          Some t \<Rightarrow>
            (fst (flush uuid src
                    (case firstPageOf b of
                       None \<Rightarrow> None
                     | Some p \<Rightarrow> if p = 0 then None else Some (p - 1))
                    (sections, current)),
             Some \<lparr> title_cur = t, startPage_cur = firstPageOf b, text_cur = [b] \<rparr>,
             autoIndex)
        | None \<Rightarrow>
            (case current of
               None \<Rightarrow>
                 (sections,
                  Some \<lparr> title_cur = ''Section '' @ showNat autoIndex,
                         startPage_cur = Some (case firstPageOf b of Some p \<Rightarrow> p | None \<Rightarrow> 1),
                         text_cur = [b] \<rparr>,
                  autoIndex + 1)
             | Some cur \<Rightarrow>
                 (sections, Some (cur\<lparr> text_cur := text_cur cur @ [b] \<rparr>), autoIndex)))"

definition taggedPages :: "nat \<Rightarrow> string list \<Rightarrow> string" where
  \<comment> \<open>pages number \<open>i + 1\<close>, \<open>i + 2\<close>, ..., each behind its marker and a line feed, joined by
      blank lines\<close>
  "taggedPages i pages =
     join [CHR 0x0A, CHR 0x0A]
       (map (\<lambda>(k, t). pageMarker (k + 1) @ [CHR 0x0A] @ t) (enumerate i pages))"

definition blocksOf :: "string list \<Rightarrow> string list" where
  "blocksOf rawPages =
     filter (\<lambda>b. b \<noteq> []) (map trim (split reNewlines2 (taggedPages 0 rawPages)))"

definition headerSections :: "(nat \<Rightarrow> string) \<Rightarrow> string list \<Rightarrow> string \<Rightarrow> Section list" where
  \<comment> \<open>the sections after the loop and the last \<open>flush\<close>\<close>
  "headerSections uuid rawPages src =
     (case foldl (processBlock uuid src) ([], None, 1) (blocksOf rawPages) of
        (sections, current, autoIndex) \<Rightarrow>
          fst (flush uuid src (Some (length rawPages)) (sections, current)))"

definition fallbackWindow :: "(nat \<Rightarrow> string) \<Rightarrow> string list \<Rightarrow> string \<Rightarrow> nat \<Rightarrow> Section" where
  \<comment> \<open>the section that the fallback loop pushes for the window that starts after page \<open>i\<close>\<close>
  "fallbackWindow uuid rawPages src i =
     (let cleanedText = cleanTextContent (taggedPages i (take 8 (drop i rawPages))) in
      \<lparr> id_sec = uuid (i div 8), sourceId = src,
        title = ''Section '' @ showNat (i div 8 + 1),
        startPage = Some (i + 1), endPage = Some (min (i + 8) (length rawPages)),
        text_sec = cleanedText, tokensEstimated = estimateTokens cleanedText \<rparr>)"

function fallbackWindows :: "(nat \<Rightarrow> string) \<Rightarrow> string list \<Rightarrow> string \<Rightarrow> nat \<Rightarrow> Section list" where
  \<comment> \<open>the loop \<open>for (let i = 0; i < rawPages.length; i += chunk)\<close> with \<open>chunk = 8\<close>, from \<open>i\<close> on\<close>
  "fallbackWindows uuid rawPages src i =
     (if i < length rawPages
      then fallbackWindow uuid rawPages src i # fallbackWindows uuid rawPages src (i + 8)
      else [])"
  by pat_completeness auto
termination
  by (relation "measure (\<lambda>(uuid, rawPages, src, i). length rawPages - i)") auto

definition splitChapters :: "(nat \<Rightarrow> string) \<Rightarrow> string list \<Rightarrow> string \<Rightarrow> Section list" where
  "splitChapters uuid rawPages src =
     (if headerSections uuid rawPages src = [] then fallbackWindows uuid rawPages src 0
      else headerSections uuid rawPages src)"

definition pagesOf :: "Section \<Rightarrow> nat list" where
  \<comment> \<open>the pages that a section with both page numbers spans, first to last\<close>
  "pagesOf s = [the (startPage s) ..< Suc (the (endPage s))]"

section \<open>Retrieval: \<open>tokenize\<close>, \<open>tfidfParagraphs\<close>, \<open>vectorizeQuery\<close>, \<open>cosine\<close>\<close>

text \<open>
  A \<open>Map<string, number>\<close> is an association list in insertion order with one entry for
  each key: \<open>mapSet\<close> is \<open>Map.prototype.set\<close>, which overwrites the entry of a key in place
  and puts a new key last. JavaScript numbers that hold counts are natural numbers;
  the TF-IDF weights and the similarity scores, double-precision numbers in the source,
  are real numbers here, with \<open>Math.log\<close> as \<^const>\<open>ln\<close> and \<open>Math.sqrt\<close> as \<^const>\<open>sqrt\<close>: rounding
  and overflow are outside the model.
\<close>

fun mapSet :: "'k \<Rightarrow> 'v \<Rightarrow> ('k \<times> 'v) list \<Rightarrow> ('k \<times> 'v) list" where
  "mapSet k v [] = [(k, v)]"
| "mapSet k v (e # m) = (if fst e = k then (k, v) # m else e # mapSet k v m)"

definition getOr0 :: "('k \<times> 'v::zero) list \<Rightarrow> 'k \<Rightarrow> 'v" where
  \<comment> \<open>\<open>m.get(k) || 0\<close>\<close>
  "getOr0 m k = (case map_of m k of Some v \<Rightarrow> v | None \<Rightarrow> 0)"

definition bump :: "(string \<times> nat) list \<Rightarrow> string \<Rightarrow> (string \<times> nat) list" where
  \<comment> \<open>\<open>m.set(t, (m.get(t) || 0) + 1)\<close>\<close>
  "bump m t = mapSet t (getOr0 m t + 1) m"

definition tokenize :: "string \<Rightarrow> string list" where
  \<comment> \<open>\<open>text.toLowerCase().replace(/[^a-z0-9\s]/g, ' ').split(/\s+/).filter(Boolean)\<close>\<close>
  "tokenize t =
     filter (\<lambda>w. w \<noteq> [])
       (split reSpaces
          (map (\<lambda>c. if isLowerAZ c \<or> isDigit c \<or> isSpace c then c else CHR '' '')
             (toLowerCase t)))"

definition idf :: "nat \<Rightarrow> (string \<times> nat) list \<Rightarrow> string \<Rightarrow> real" where
  \<comment> \<open>\<open>Math.log((N + 1) / ((df.get(t) || 0) + 1)) + 1\<close>\<close>
  "idf N df t = ln (real (N + 1) / real (getOr0 df t + 1)) + 1"

definition weigh :: "nat \<Rightarrow> (string \<times> nat) list \<Rightarrow> string list \<Rightarrow> (string \<times> real) list" where
  \<comment> \<open>the term frequencies of a token list, then \<open>vec.set(t, f * idf)\<close> for each of them\<close>
  "weigh N df toks = map (\<lambda>(t, f). (t, real f * idf N df t)) (foldl bump [] toks)"

definition documentFrequency :: "string list list \<Rightarrow> (string \<times> nat) list" where
  \<comment> \<open>the loop over \<open>docs\<close>: each token of \<open>new Set(d)\<close>, in the order of its first occurrence,
      is counted once\<close>
  "documentFrequency docs = foldl (\<lambda>df d. foldl bump df (rev (remdups (rev d)))) [] docs"

definition tfidfParagraphs ::
  "string list \<Rightarrow> (string \<times> real) list list \<times> (string \<times> nat) list" where
  \<comment> \<open>the pair is \<open>{ vectors, vocabulary: df }\<close>\<close>
  "tfidfParagraphs paragraphs =
     (let docs = map tokenize paragraphs; df = documentFrequency docs; N = length docs in
      (map (weigh N df) docs, df))"

definition vectorizeQuery :: "string \<Rightarrow> (string \<times> nat) list \<Rightarrow> nat \<Rightarrow> (string \<times> real) list" where
  "vectorizeQuery q df N = weigh N df (tokenize q)"

definition dotProduct :: "(string \<times> real) list \<Rightarrow> (string \<times> real) list \<Rightarrow> real" where
  \<comment> \<open>the variable \<open>dot\<close>: \<open>dot += va * (b.get(k) || 0)\<close> over the entries of \<open>a\<close>\<close>
  "dotProduct a b = (\<Sum>(k, va) \<leftarrow> a. va * getOr0 b k)"

definition normSq :: "(string \<times> real) list \<Rightarrow> real" where
  \<comment> \<open>the variables \<open>na\<close> and \<open>nb\<close>: the sum of the squares of the weights\<close>
  "normSq v = (\<Sum>(k, w) \<leftarrow> v. w * w)"

definition cosine :: "(string \<times> real) list \<Rightarrow> (string \<times> real) list \<Rightarrow> real" where
  \<comment> \<open>\<open>dot / (Math.sqrt(na) * Math.sqrt(nb) + 1e-8)\<close>\<close>
  "cosine a b = dotProduct a b / (sqrt (normSq a) * sqrt (normSq b) + 1 / 10 ^ 8)"

section \<open>The extractive summarizer\<close>

definition sentencesOf :: "string \<Rightarrow> string list" where
  \<comment> \<open>\<open>text.split(/(?<=[.!?])\s+/).filter(s => s.trim().length > 0)\<close>\<close>
  "sentencesOf t = filter (\<lambda>s. 0 < length (trim s)) (split reSentenceEnd t)"

definition sentenceScore :: "(string \<times> nat) list \<Rightarrow> string \<Rightarrow> rat" where
  \<comment> \<open>\<open>sc += 1 / (freq.get(w) || 1)\<close> over the tokens of the sentence; the sum of reciprocals,
      a double in the source, is kept exact\<close>
  "sentenceScore freq s =
     (\<Sum>w \<leftarrow> tokenize s. 1 / of_nat (if getOr0 freq w = 0 then 1 else getOr0 freq w))"

definition sortByScoreDesc :: "(nat \<times> 'a::{linorder, uminus}) list \<Rightarrow> (nat \<times> 'a) list" where
  \<comment> \<open>\<open>sort((a, b) => b.sc - a.sc)\<close>: descending by score; \<open>Array.prototype.sort\<close> is stable,
      so entries of equal score keep their order\<close>
  "sortByScoreDesc xs = sort_key (\<lambda>e. - snd e) xs"

definition pickCount :: "nat \<Rightarrow> nat" where
  \<comment> \<open>\<open>Math.min(6, Math.ceil(n * 0.25))\<close>\<close>
  "pickCount n = min 6 ((n + 3) div 4)"

definition pickSentences :: "string \<Rightarrow> nat list" where
  \<comment> \<open>the array \<open>pick\<close>: the positions of the chosen sentences, ascending\<close>
  "pickSentences t =
     (let sentences = sentencesOf t;
          freq = foldl bump [] (tokenize t);
          scores = map (\<lambda>(i, s). (i, sentenceScore freq s)) (enumerate 0 sentences)
      in sort (map fst (take (pickCount (length sentences)) (sortByScoreDesc scores))))"

definition generateExtractiveSummary :: "string \<Rightarrow> string" where
  "generateExtractiveSummary t =
     (let sentences = sentencesOf t in
      if length sentences \<le> 3 then trim t
      else join '' '' (map (\<lambda>i. sentences ! i) (pickSentences t)))"

section \<open>The answer composer\<close>

text \<open>
  The messages of the composer are written line by line. The bullet of the source's
  suggestion lists is the code unit U+2022, outside the range of \<^typ>\<open>char\<close>; it stands here as
  its three UTF-8 bytes.
\<close>

definition unlines :: "string list \<Rightarrow> string" where
  "unlines ls = join [CHR 0x0A] ls"

definition bullet :: string where
  "bullet = [CHR 0xE2, CHR 0x80, CHR 0xA2]"

subsection \<open>\<open>getSourceInfo\<close>\<close>

definition truthy :: "nat option \<Rightarrow> bool" where
  \<comment> \<open>an optional page number as a condition: \<open>undefined\<close> and 0 are falsy\<close>
  "truthy p = (case p of None \<Rightarrow> False | Some n \<Rightarrow> n \<noteq> 0)"

definition pageInfo :: "Section \<Rightarrow> string" where
  "pageInfo sec =
     (if truthy (startPage sec) \<and> truthy (endPage sec)
      then ''pages '' @ showNat (the (startPage sec)) @ ''-'' @ showNat (the (endPage sec))
      else if truthy (startPage sec) then ''page '' @ showNat (the (startPage sec))
      else ''source document'')"

definition activeSection :: "Section list \<Rightarrow> string option \<Rightarrow> Section option" where
  \<comment> \<open>\<open>sections.find(s => s.id === activeId) || sections[0]\<close>\<close>
  "activeSection sections activeId =
     (case find (\<lambda>s. Some (id_sec s) = activeId) sections of
        Some s \<Rightarrow> Some s
      | None \<Rightarrow> (case sections of [] \<Rightarrow> None | s # ss \<Rightarrow> Some s))"

definition getSourceInfo :: "Section list \<Rightarrow> string option \<Rightarrow> string" where
  "getSourceInfo sections activeId =
     (case activeSection sections activeId of
        None \<Rightarrow> ''Source information not available''
      | Some sec \<Rightarrow> ''Based on '' @ [CHR 0x22] @ title sec @ [CHR 0x22] @ '' from '' @ pageInfo sec)"

subsection \<open>\<open>cleanContent\<close>\<close>

definition rePageMarker :: "string \<Rightarrow> (string \<times> string) option" where
  \<comment> \<open>\<open>/\[\[PAGE:\d+\]\]/\<close> replaced by nothing\<close>
  "rePageMarker s = (case matchPageMarker s of None \<Rightarrow> None | Some m \<Rightarrow> Some ([], snd m))"

definition reSpaces1 :: "string \<Rightarrow> (string \<times> string) option" where
  \<comment> \<open>\<open>/\s+/\<close> replaced by one space\<close>
  "reSpaces1 s = (if takeWhile isSpace s = [] then None else Some ('' '', dropWhile isSpace s))"

definition reHyphenJoin :: "string \<Rightarrow> (string \<times> string) option" where
  \<comment> \<open>\<open>/(\w+)\s*-\s*(\w+)/\<close> replaced by \<open>$1$2\<close>\<close>
  "reHyphenJoin s =
     (if takeWhile isWord s = [] then None else
      case dropWhile isSpace (dropWhile isWord s) of
        [] \<Rightarrow> None
      | h # r \<Rightarrow>
          if h \<noteq> CHR ''-'' \<or> takeWhile isWord (dropWhile isSpace r) = [] then None
          else Some (takeWhile isWord s @ takeWhile isWord (dropWhile isSpace r),
                     dropWhile isWord (dropWhile isSpace r)))"

definition cleanContent :: "string \<Rightarrow> string" where
  "cleanContent content =
     trim (replaceAll reSpaces2 (replaceAll reHyphenJoin (replaceAll reSpaceBeforePunct
       (replaceAll reSpaces1 (replaceAll rePageMarker content)))))"

subsection \<open>Educational explanations\<close>

definition explanationKeywords :: "string list" where
  "explanationKeywords =
     [''explain'', ''simpler'', ''simple'', ''basic'', ''beginner'', ''easy'',
      ''understand'', ''clarify'', ''elaborate'', ''break down'', ''in detail'',
      ''what does'', ''how does'', ''why does'', ''what is'', ''define'',
      ''meaning'', ''concept'', ''examples'', ''illustrate'']"

definition isEducationalExplanationRequest :: "string \<Rightarrow> bool" where
  "isEducationalExplanationRequest question =
     list_ex (\<lambda>keyword. includesStr (toLowerCase question) keyword) explanationKeywords"

definition stopWords :: "string list" where
  "stopWords =
     [''what'', ''how'', ''why'', ''when'', ''where'', ''who'', ''which'', ''that'', ''this'',
      ''is'', ''are'', ''was'', ''were'', ''be'', ''been'', ''being'', ''have'', ''has'', ''had'',
      ''do'', ''does'', ''did'', ''will'', ''would'', ''could'', ''should'', ''may'', ''might'',
      ''can'', ''could'', ''the'', ''a'', ''an'', ''and'', ''or'', ''but'', ''in'', ''on'', ''at'',
      ''to'', ''for'', ''of'', ''with'', ''by'', ''about'', ''into'', ''through'', ''during'',
      ''before'', ''after'', ''above'', ''below'', ''up'', ''down'', ''out'', ''off'', ''over'',
      ''under'', ''again'', ''further'', ''then'', ''once'', ''explain'', ''simpler'', ''simple'']"

definition extractKeyTerms :: "string \<Rightarrow> string list" where
  "extractKeyTerms question =
     take 5
       (filter (\<lambda>word. 2 < length word \<and> word \<notin> set stopWords)
          (split reSpaces
             (map (\<lambda>c. if isWord c \<or> isSpace c then c else CHR '' '') (toLowerCase question))))"

definition findRelevantContentByTerms :: "string \<Rightarrow> string list \<Rightarrow> string list" where
  "findRelevantContentByTerms context_text keyTerms =
     (if keyTerms = [] then []
      else
        take 3
          (filter
             (\<lambda>paragraph.
                0 < foldl (\<lambda>count term.
                             if includesStr (toLowerCase paragraph) term then count + 1 else count)
                      (0::nat) keyTerms)
             (filter (\<lambda>p. 30 < length p) (map trim (split reNewlines2 context_text)))))"

definition generateEducationalResponse :: "string \<Rightarrow> string list \<Rightarrow> string list \<Rightarrow> string" where
  "generateEducationalResponse question content keyTerms =
     (let lowerQuestion = toLowerCase question;
          sentences = filter (\<lambda>s. 10 < length (trim s))
                        (split rePunctRun (take 400 (join '' '' content)))
      in
        (if includesStr lowerQuestion ''simpler'' \<or> includesStr lowerQuestion ''simple''
         then ''Let me break this down in simpler terms:'' @ [CHR 0x0A, CHR 0x0A]
         else if includesStr lowerQuestion ''what is'' \<or> includesStr lowerQuestion ''define''
         then ''Here'' @ [CHR 0x27] @ ''s what I found about this concept:'' @ [CHR 0x0A, CHR 0x0A]
         else ''Based on the content, here'' @ [CHR 0x27] @ ''s an explanation:''
                @ [CHR 0x0A, CHR 0x0A])
        @ join ''. '' (map trim (take 3 sentences))
        @ (if 3 < length sentences then ''...'' else [])
        @ [CHR 0x0A, CHR 0x0A]
        @ (if 0 < length keyTerms
           then ''Key concepts mentioned: '' @ join '', '' keyTerms @ [CHR 0x0A, CHR 0x0A]
           else [])
        @ ''Would you like me to elaborate on any specific aspect?'')"

definition workingWith :: "string \<Rightarrow> string" where
  \<comment> \<open>the line of the guidance messages that names the source; an empty string is falsy\<close>
  "workingWith source =
     (if source \<noteq> [] then ''Currently working with: *'' @ source @ ''*''
      else ''Please upload a PDF or select a chapter to get started.'')"

definition handleEducationalExplanation ::
  "string \<Rightarrow> string \<Rightarrow> Section list \<Rightarrow> string option \<Rightarrow> string" where
  "handleEducationalExplanation question context_text sections activeId =
     (let lowerQuestion = toLowerCase question;
          keyTerms = extractKeyTerms question;
          relevantContent = findRelevantContentByTerms context_text keyTerms;
          source = getSourceInfo sections activeId
      in
        if 0 < length relevantContent
        then generateEducationalResponse question relevantContent keyTerms
        else if includesStr lowerQuestion ''simpler'' \<or> includesStr lowerQuestion ''simple''
        then unlines
          [''I'' @ [CHR 0x27] @ ''d be happy to explain this in simpler terms! However, I need more specific content to work with. '',
           [],
           ''Here are some suggestions:'',
           bullet @ '' Try asking about a specific concept or term from the document'',
           bullet @ '' Select a particular chapter that contains the topic you'' @ [CHR 0x27] @ ''re interested in'',
           bullet @ '' Upload a document that covers the subject you want explained'',
           [],
           workingWith source,
           [],
           ''What specific topic would you like me to explain?'']
        else if includesStr lowerQuestion ''what is'' \<or> includesStr lowerQuestion ''define''
        then unlines
          [''I can help define concepts for you! To provide an accurate definition, I need to reference the relevant content from your documents.'',
           [],
           ''Please try:'',
           bullet @ '' Asking about terms that appear in the selected chapter'',
           bullet @ '' Uploading a document that contains the concept you want defined'',
           bullet @ '' Being more specific about which subject area you'' @ [CHR 0x27] @ ''re exploring'',
           [],
           workingWith source,
           [],
           ''What term or concept would you like me to define?'']
        else unlines
          [''I understand you'' @ [CHR 0x27] @ ''re looking for an educational explanation. I'' @ [CHR 0x27] @ ''m designed to help explain concepts from your uploaded documents in a clear, accessible way.'',
           [],
           ''To provide the best explanation:'',
           bullet @ '' Make sure you have content selected from a chapter or document'',
           bullet @ '' Ask about specific topics that appear in your materials'',
           bullet @ '' I can break down complex concepts into simpler terms'',
           [],
           workingWith source,
           [],
           ''What would you like me to help explain?''])"

definition couldNotFindMessage :: "string \<Rightarrow> string" where
  \<comment> \<open>the template that \<open>generateEnhancedFallback\<close> returns for the other queries\<close>
  "couldNotFindMessage source =
     unlines
       [''I couldn'' @ [CHR 0x27] @ ''t find specific information directly addressing your question in the current content. '',
        [],
        ''Here are some suggestions:'',
        bullet @ '' Try rephrasing your question with different keywords'',
        bullet @ '' Check if you'' @ [CHR 0x27] @ ''ve selected the most relevant chapter or section'',
        bullet @ '' Ask about topics that are explicitly mentioned in the document'',
        [],
        workingWith source,
        [],
        ''What specific aspect would you like to explore?'']"

definition generateEnhancedFallback ::
  "string \<Rightarrow> string \<Rightarrow> Section list \<Rightarrow> string option \<Rightarrow> string" where
  "generateEnhancedFallback question context_text sections activeId =
     (let source = getSourceInfo sections activeId in
      if isEducationalExplanationRequest question
      then handleEducationalExplanation question context_text sections activeId
      else couldNotFindMessage source)"

subsection \<open>The ranked answer\<close>

definition generateIntroPhrase :: "string \<Rightarrow> string" where
  "generateIntroPhrase question =
     (let q = toLowerCase question in
      if includesStr q ''what'' \<or> includesStr q ''explain'' then []
      else if includesStr q ''how'' then ''According to the content, ''
      else if includesStr q ''why'' then ''The document suggests that ''
      else if includesStr q ''when'' \<or> includesStr q ''where'' then ''Based on the information, ''
      else if includesStr q ''who'' then ''The text indicates that ''
      else [])"

definition generateNaturalAnswer :: "string \<Rightarrow> string list \<Rightarrow> string" where
  "generateNaturalAnswer question paragraphs =
     (let sentences = take 6 (filter (\<lambda>s. 20 < length s)
                        (split reSentenceEnd (take 1000 (join '' '' paragraphs))))
      in
        if sentences = []
        then ''I found some related content, but it'' @ [CHR 0x27] @ ''s difficult to extract a clear answer to your specific question.''
        else generateIntroPhrase question @ trim (replaceAll reSpaces1 (join '' '' sentences)))"

definition paragraphsOf :: "string \<Rightarrow> string list" where
  \<comment> \<open>\<open>cleanContext.split(/\n{2,}/).map(p => p.trim()).filter(p => p.length > 50)\<close>\<close>
  "paragraphsOf cleanContext =
     filter (\<lambda>p. 50 < length p) (map trim (split reNewlines2 cleanContext))"

definition rankParagraphs :: "string \<Rightarrow> string list \<Rightarrow> (nat \<times> real) list" where
  \<comment> \<open>the array \<open>scored\<close>: every paragraph scored against the query vector, sorted by
      descending score, cut to three\<close>
  "rankParagraphs question paras =
     (case tfidfParagraphs paras of
        (vectors, vocabulary) \<Rightarrow>
          take 3 (sortByScoreDesc
            (map (\<lambda>(i, v). (i, cosine (vectorizeQuery question vocabulary (length paras)) v))
               (enumerate 0 vectors))))"

definition paragraphScore :: "string \<Rightarrow> string list \<Rightarrow> nat \<Rightarrow> real" where
  \<comment> \<open>\<open>cosine(qvec, v)\<close> for the vector \<open>v\<close> of paragraph number \<open>i\<close>\<close>
  "paragraphScore question paras i =
     cosine (vectorizeQuery question (snd (tfidfParagraphs paras)) (length paras))
       (fst (tfidfParagraphs paras) ! i)"

definition relevantParagraphs :: "string \<Rightarrow> string list \<Rightarrow> string list" where
  \<comment> \<open>\<open>scored.filter(s => s.score > 0.1).map(s => paras[s.i])\<close>\<close>
  "relevantParagraphs question paras =
     map (\<lambda>s. paras ! fst s) (filter (\<lambda>s. 1 / 10 < snd s) (rankParagraphs question paras))"

definition insufficientContentMessage :: string where
  "insufficientContentMessage =
     ''I don'' @ [CHR 0x27] @ ''t have enough content to answer your question. Please make sure you'' @ [CHR 0x27] @ ''ve selected a chapter with substantial content.''"

definition noContentMessage :: string where
  "noContentMessage = ''No content available. Please upload a PDF or select a chapter.''"

definition generateRuleBasedAnswer ::
  "string \<Rightarrow> string \<Rightarrow> Section list \<Rightarrow> string option \<Rightarrow> string" where
  "generateRuleBasedAnswer question cleanContext sections activeId =
     (if isEducationalExplanationRequest question
      then handleEducationalExplanation question cleanContext sections activeId
      else if length (paragraphsOf cleanContext) = 0
      then insufficientContentMessage
      else if length (relevantParagraphs question (paragraphsOf cleanContext)) = 0
      then generateEnhancedFallback question cleanContext sections activeId
      else generateNaturalAnswer question (relevantParagraphs question (paragraphsOf cleanContext))
             @ [CHR 0x0A, CHR 0x0A] @ ''*'' @ getSourceInfo sections activeId @ ''*'')"

text \<open>
  \<open>demoAnswer\<close> awaits the optional AI service first. The service is a parameter: \<open>None\<close>
  when \<open>getGeminiAIService\<close> returns \<open>null\<close>; otherwise the function that
  \<open>generateEducationalResponse\<close> of the service computes, whose result \<open>None\<close> stands for a
  thrown error, caught by the \<open>try\<close> block.
\<close>

definition demoAnswer ::
  "(string \<Rightarrow> string \<Rightarrow> string option) option \<Rightarrow> string \<Rightarrow> string \<Rightarrow> Section list
     \<Rightarrow> string option \<Rightarrow> string" where
  "demoAnswer aiService question context_text sections activeId =
     (if length (trim context_text) = 0
      then noContentMessage
      else
        case (case aiService of None \<Rightarrow> None
              | Some service \<Rightarrow> service question (cleanContent context_text)) of
          Some response \<Rightarrow>
            response @ [CHR 0x0A, CHR 0x0A] @ ''*'' @ getSourceInfo sections activeId @ ''*''
        | None \<Rightarrow> generateRuleBasedAnswer question (cleanContent context_text) sections activeId)"

section \<open>Notions for the proofs about the sectioner\<close>

text \<open>
  These predicates belong to the proofs, not to the program: that a string holds a page
  marker, written without the search that \<open>firstPageOf\<close> performs; that a separator of
  \<open>split\<close> looks at line feeds only; what the proofs know of a block of pages that hold no
  marker of their own; that a section's page numbers are in order; and the invariant of
  the loop over the blocks.
\<close>

definition hasMarker :: "string \<Rightarrow> bool" where
  "hasMarker s \<longleftrightarrow> (\<exists>pre ds post. s = pre @ ''[[PAGE:'' @ ds @ '']]'' @ post \<and> ds \<noteq> [] \<and> list_all isDigit ds)"

definition nlSeparator :: "(char option \<Rightarrow> string \<Rightarrow> nat option) \<Rightarrow> bool" where
  "nlSeparator m \<longleftrightarrow>
     (\<forall>p p' s. m p s = m p' s) \<and> (\<forall>p c s. c \<noteq> CHR 0x0A \<longrightarrow> m p (c # s) = None)"

definition blockOK :: "nat \<Rightarrow> nat \<Rightarrow> string \<Rightarrow> bool" where
  "blockOK lo hi b \<longleftrightarrow>
     firstPageOf b = None \<or>
     (headerTitle b = None \<and> (\<exists>k. lo < k \<and> k \<le> hi \<and> firstPageOf b = Some k))"

definition ordered :: "Section \<Rightarrow> bool" where
  "ordered s \<longleftrightarrow> (\<forall>a b. startPage s = Some a \<and> endPage s = Some b \<longrightarrow> a \<le> b)"

definition loopInv :: "nat \<Rightarrow> Section list \<times> Current option \<times> nat \<Rightarrow> bool" where
  "loopInv n st \<longleftrightarrow>
     (\<forall>s \<in> set (fst st). ordered s) \<and>
     (\<forall>c a. fst (snd st) = Some c \<and> startPage_cur c = Some a \<longrightarrow> a \<le> n)"

section \<open>Properties of the sectioner\<close>

text \<open>
  C1. The scenario of the specification: the two pages
  \<open>["Chapter 1: Origins\nLong paragraph A...", "More text..."]\<close>. The first block of every
  page starts with the line of the page marker that \<open>splitChapters\<close> itself puts in front of
  the page, and \<open>isLikelyHeader\<close> sees only that line, which it rejects as a page marker. So
  the heading \<open>Chapter 1: Origins\<close> in the second line of the block is never examined: the
  one section that comes out starts at page 1 and ends at page 2, but it is the
  automatically named \<open>Section 1\<close>, not \<open>Origins\<close>.
\<close>

theorem splitChapters_origins_scenario:
  "map (\<lambda>s. (title s, startPage s, endPage s))
     (splitChapters uuid [''Chapter 1: Origins\<newline>Long paragraph A...'', ''More text...''] src)
   = [(''Section 1'', Some 1, Some 2)]"
  by code_simp

subsection \<open>The fallback windows\<close>

declare fallbackWindows.simps [simp del]

lemma fallbackWindows_step:
  "i < length rawPages \<Longrightarrow>
   fallbackWindows uuid rawPages src i =
     fallbackWindow uuid rawPages src i # fallbackWindows uuid rawPages src (i + 8)"
  by (subst fallbackWindows.simps) simp

lemma fallbackWindows_done:
  "\<not> i < length rawPages \<Longrightarrow> fallbackWindows uuid rawPages src i = []"
  by (subst fallbackWindows.simps) simp

lemma windowCount_step:
  assumes "i < (n::nat)"
  shows "(n - i + 7) div 8 = Suc ((n - (i + 8) + 7) div 8)"
proof (cases "i + 8 \<le> n")
  case True
  then obtain m where n: "n = i + 8 + m" using le_Suc_ex by blast
  have "(n - i + 7) div 8 = ((m + 7) + 8) div 8" unfolding n by (simp only: add.assoc add.commute add.left_commute diff_add_inverse) 
  also have "\<dots> = (m + 7) div 8 + 1" by (rule div_add_self2) simp
  also have "m = n - (i + 8)" unfolding n by (simp only: diff_add_inverse)
  finally show ?thesis by (simp only: Suc_eq_plus1)
next
  case False
  with assms obtain d where d: "n = i + d" "0 < d" "d < 8"
    by (metis add.commute add_diff_inverse_nat less_diff_conv not_le not_less_iff_gr_or_eq zero_less_diff)
  have "n - (i + 8) = 0" using False by (simp only: not_le diff_is_0_eq less_imp_le)
  moreover have "(n - i + 7) div 8 = 1"
  proof -
    have "n - i + 7 = d + 7" unfolding d by (simp only: diff_add_inverse)
    moreover have "(d + 7) div 8 = 1" using d(2,3) by (intro div_nat_eqI) simp_all
    ultimately show ?thesis by (simp only:)
  qed
  ultimately show ?thesis by (simp only:)
qed

lemma fallbackWindows_length:
  "length (fallbackWindows uuid rawPages src i) = (length rawPages - i + 7) div 8"
proof (induction uuid rawPages src i rule: fallbackWindows.induct)
  case (1 uuid rawPages src i)
  show ?case
  proof (cases "i < length rawPages")
    case True
    then have "length (fallbackWindows uuid rawPages src i) =
               Suc ((length rawPages - (i + 8) + 7) div 8)"
      using "1.IH" by (simp only: fallbackWindows_step list.size length_Cons)
    then show ?thesis by (simp only: windowCount_step [OF True])
  next
    case False
    then have "length rawPages - i = 0" by simp
    then have "(length rawPages - i + 7) div 8 = 0" by (simp only:)
    then show ?thesis by (simp only: fallbackWindows_done [OF False] list.size)
  qed
qed

lemma fallbackWindows_nth:
  "k < length (fallbackWindows uuid rawPages src i) \<Longrightarrow>
   fallbackWindows uuid rawPages src i ! k = fallbackWindow uuid rawPages src (i + 8 * k)"
proof (induction uuid rawPages src i arbitrary: k rule: fallbackWindows.induct)
  case (1 uuid rawPages src i)
  show ?case
  proof (cases "i < length rawPages")
    case True
    show ?thesis
    proof (cases k)
      case 0
      then show ?thesis using True by (simp add: fallbackWindows_step)
    next
      case (Suc j)
      with "1.prems" True have "j < length (fallbackWindows uuid rawPages src (i + 8))"
        by (simp add: fallbackWindows_step)
      from "1.IH" [OF True this] Suc True show ?thesis
        by (simp add: fallbackWindows_step add.assoc)
    qed
  next
    case False
    with "1.prems" show ?thesis by (simp add: fallbackWindows_done)
  qed
qed

lemma pagesOf_fallbackWindow:
  "pagesOf (fallbackWindow uuid rawPages src i) = [Suc i ..< Suc (min (i + 8) (length rawPages))]"
  by (simp add: pagesOf_def fallbackWindow_def Let_def)

lemma fallbackWindows_cover:
  "i \<le> length rawPages \<Longrightarrow>
   concat (map pagesOf (fallbackWindows uuid rawPages src i)) = [Suc i ..< Suc (length rawPages)]"
proof (induction uuid rawPages src i rule: fallbackWindows.induct)
  case (1 uuid rawPages src i)
  show ?case
  proof (cases "i < length rawPages")
    case True
    show ?thesis
    proof (cases "i + 8 \<le> length rawPages")
      case le: True
      have "[Suc i ..< Suc (i + 8) + (length rawPages - (i + 8))] =
            [Suc i ..< Suc (i + 8)] @ [Suc (i + 8) ..< Suc (i + 8) + (length rawPages - (i + 8))]"
        by (rule upt_add_eq_append) simp
      moreover have "Suc (i + 8) + (length rawPages - (i + 8)) = Suc (length rawPages)"
        using le by arith
      ultimately have "[Suc i ..< Suc (length rawPages)] =
          [Suc i ..< Suc (i + 8)] @ [Suc (i + 8) ..< Suc (length rawPages)]"
        by simp
      with "1.IH" [OF True le] True le show ?thesis
        by (simp add: fallbackWindows_step pagesOf_fallbackWindow min_def)
    next
      case gt: False
      then have "fallbackWindows uuid rawPages src (i + 8) = []"
        by (simp add: fallbackWindows_done)
      with True gt show ?thesis
        by (simp add: fallbackWindows_step pagesOf_fallbackWindow min_def)
    qed
  next
    case False
    with "1.prems" show ?thesis by (simp add: fallbackWindows_done)
  qed
qed

text \<open>
  C3. When the loop over the blocks and the last \<open>flush\<close> leave no section, \<open>splitChapters\<close>
  returns the fallback windows: there are \<open>\<lceil>n / 8\<rceil>\<close> of them for \<open>n\<close> pages; window number
  \<open>k\<close> (from 0) is titled \<open>Section k+1\<close>, starts at page \<open>8k + 1\<close> and ends at page
  \<open>min (8k + 8) n\<close>, so every window but the last spans 8 pages; the page ranges of the
  windows, one after the other, are exactly the pages 1 to \<open>n\<close> in order, each once. And
  whichever way the sections are made, a non-empty page sequence gives at least one section.
\<close>

theorem splitChapters_fallback_windows:
  "(headerSections uuid rawPages src = [] \<longrightarrow>
      length (splitChapters uuid rawPages src) = (length rawPages + 7) div 8 \<and>
      (\<forall>k < length (splitChapters uuid rawPages src).
         title (splitChapters uuid rawPages src ! k) = ''Section '' @ showNat (k + 1) \<and>
         startPage (splitChapters uuid rawPages src ! k) = Some (8 * k + 1) \<and>
         endPage (splitChapters uuid rawPages src ! k) = Some (min (8 * k + 8) (length rawPages))) \<and>
      concat (map pagesOf (splitChapters uuid rawPages src)) = [1 ..< Suc (length rawPages)]) \<and>
   (rawPages \<noteq> [] \<longrightarrow> splitChapters uuid rawPages src \<noteq> [])"
proof (intro conjI impI allI)
  assume h: "headerSections uuid rawPages src = []"
  then have eq: "splitChapters uuid rawPages src = fallbackWindows uuid rawPages src 0"
    by (simp add: splitChapters_def)
  show "length (splitChapters uuid rawPages src) = (length rawPages + 7) div 8"
    using fallbackWindows_length [of uuid rawPages src 0] by (simp only: eq diff_zero)
  show "concat (map pagesOf (splitChapters uuid rawPages src)) = [1 ..< Suc (length rawPages)]"
    by (simp add: eq fallbackWindows_cover)
  fix k assume "k < length (splitChapters uuid rawPages src)"
  then have k: "k < length (fallbackWindows uuid rawPages src 0)" by (simp add: eq)
  have w: "splitChapters uuid rawPages src ! k = fallbackWindow uuid rawPages src (8 * k)"
    using fallbackWindows_nth [OF k] by (simp add: eq)
  show "title (splitChapters uuid rawPages src ! k) = ''Section '' @ showNat (k + 1)"
    and "startPage (splitChapters uuid rawPages src ! k) = Some (8 * k + 1)"
    and "endPage (splitChapters uuid rawPages src ! k) = Some (min (8 * k + 8) (length rawPages))"
    by (simp_all add: w fallbackWindow_def Let_def)
next
  assume ne: "rawPages \<noteq> []"
  show "splitChapters uuid rawPages src \<noteq> []"
  proof (cases "headerSections uuid rawPages src = []")
    case True
    have "0 < length rawPages" using ne by simp
    then have "fallbackWindows uuid rawPages src 0 \<noteq> []" by (simp add: fallbackWindows_step)
    with True show ?thesis by (simp add: splitChapters_def)
  next
    case False
    then show ?thesis by (simp add: splitChapters_def)
  qed
qed


theorem splitChapters_fallback_windows_witness:
  "headerSections showNat (replicate 9 ''\<newline>\<newline>Introduction'') ''doc'' = [] \<and>
   length (splitChapters showNat (replicate 9 ''\<newline>\<newline>Introduction'') ''doc'') = 2 \<and>
   title (splitChapters showNat (replicate 9 ''\<newline>\<newline>Introduction'') ''doc'' ! 1) = ''Section 2'' \<and>
   startPage (splitChapters showNat (replicate 9 ''\<newline>\<newline>Introduction'') ''doc'' ! 1) = Some 9 \<and>
   endPage (splitChapters showNat (replicate 9 ''\<newline>\<newline>Introduction'') ''doc'' ! 1) = Some 9 \<and>
   concat (map pagesOf (splitChapters showNat (replicate 9 ''\<newline>\<newline>Introduction'') ''doc''))
     = [1, 2, 3, 4, 5, 6, 7, 8, 9] \<and>
   splitChapters showNat (replicate 9 ''\<newline>\<newline>Introduction'') ''doc'' \<noteq> []"
proof -
  let ?pages = "replicate 9 ''\<newline>\<newline>Introduction''"
  have h: "headerSections showNat ?pages ''doc'' = []" by code_simp
  have two: "showNat (1 + 1) = ''2''" by code_simp
  have upt: "[1 ..< Suc 9] = [1, 2, 3, 4, 5, 6, 7, 8, 9]" by code_simp
  note w = splitChapters_fallback_windows [of showNat ?pages "''doc''"]
  from w h have len: "length (splitChapters showNat ?pages ''doc'') = 2" by simp
  from w h len have "title (splitChapters showNat ?pages ''doc'' ! 1) = ''Section '' @ showNat (1 + 1)"
    and "startPage (splitChapters showNat ?pages ''doc'' ! 1) = Some 9"
    and "endPage (splitChapters showNat ?pages ''doc'' ! 1) = Some 9"
    by simp_all
  moreover from w h have "concat (map pagesOf (splitChapters showNat ?pages ''doc'')) = [1 ..< Suc 9]"
    by simp
  moreover from w have "splitChapters showNat ?pages ''doc'' \<noteq> []" by simp
  ultimately show ?thesis using h len two upt by simp
qed

subsection \<open>Decimal numbers and page markers\<close>

declare showNat.simps [simp del]

lemma digit_nth: "d < 10 \<Longrightarrow> isDigit (''0123456789'' ! d) \<and> digitVal (''0123456789'' ! d) = d"
proof -
  have "\<forall>d \<in> set [0 ..< 10]. isDigit (''0123456789'' ! d) \<and> digitVal (''0123456789'' ! d) = d"
    by code_simp
  moreover assume "d < 10"
  ultimately show ?thesis by simp
qed

lemma showNat_digits: "showNat n \<noteq> [] \<and> list_all isDigit (showNat n)"
proof (induction n rule: showNat.induct)
  case (1 n)
  show ?case
  proof (cases "n < 10")
    case True
    then show ?thesis using digit_nth [of n] by (subst (1 2) showNat.simps) simp
  next
    case False
    have "n mod 10 < 10" by simp
    with False 1 digit_nth [of "n mod 10"] show ?thesis
      by (subst (1 2) showNat.simps) simp
  qed
qed

lemma parseInt_append: "parseInt (xs @ [c]) = 10 * parseInt xs + digitVal c"
  by (simp add: parseInt_def)

lemma parseInt_showNat: "parseInt (showNat n) = n"
proof (induction n rule: showNat.induct)
  case (1 n)
  show ?case
  proof (cases "n < 10")
    case True
    then show ?thesis using digit_nth [of n] by (subst showNat.simps) (simp add: parseInt_def)
  next
    case False
    have "n mod 10 < 10" by simp
    with False 1 digit_nth [of "n mod 10"] show ?thesis
      by (subst showNat.simps) (simp add: parseInt_append)
  qed
qed

lemma stripPrefix_append: "stripPrefix p (p @ r) = Some r"
  by (simp add: stripPrefix_def)

lemma stripPrefix_SomeD: "stripPrefix p s = Some r \<Longrightarrow> s = p @ r"
  by (auto simp: stripPrefix_def prefix_def split: if_splits)

lemma takeWhile_digits_bracket:
  "list_all isDigit ds \<Longrightarrow> takeWhile isDigit (ds @ CHR '']'' # r) = ds"
  by (induction ds) (simp_all add: isDigit_def)

lemma dropWhile_digits_bracket:
  "list_all isDigit ds \<Longrightarrow> dropWhile isDigit (ds @ CHR '']'' # r) = CHR '']'' # r"
  by (induction ds) (simp_all add: isDigit_def)

lemma matchPageMarker_marker:
  assumes "list_all isDigit ds" and "ds \<noteq> []"
  shows "matchPageMarker (''[[PAGE:'' @ ds @ '']]'' @ rest) = Some (ds, rest)"
proof -
  have s: "stripPrefix ''[[PAGE:'' (''[[PAGE:'' @ ds @ '']]'' @ rest) = Some (ds @ CHR '']'' # CHR '']'' # rest)"
    using stripPrefix_append [of "''[[PAGE:''" "ds @ '']]'' @ rest"] by simp
  have t: "stripPrefix '']]'' (CHR '']'' # CHR '']'' # rest) = Some rest"
    using stripPrefix_append [of "'']]''" rest] by simp
  show ?thesis
    using assms
    by (simp only: matchPageMarker_def s option.case takeWhile_digits_bracket
          dropWhile_digits_bracket t if_False)
qed

lemma matchPageMarker_SomeD:
  assumes "matchPageMarker s = Some m"
  shows "s = ''[[PAGE:'' @ fst m @ '']]'' @ snd m \<and> fst m \<noteq> [] \<and> list_all isDigit (fst m)"
proof -
  from assms obtain r where r: "stripPrefix ''[[PAGE:'' s = Some r"
    by (auto simp: matchPageMarker_def split: option.splits)
  with assms have ne: "takeWhile isDigit r \<noteq> []"
    by (auto simp: matchPageMarker_def split: if_splits)
  with assms r obtain rest where rest: "stripPrefix '']]'' (dropWhile isDigit r) = Some rest"
    and m: "m = (takeWhile isDigit r, rest)"
    by (auto simp: matchPageMarker_def split: option.splits)
  have "r = takeWhile isDigit r @ dropWhile isDigit r" by simp
  also have "dropWhile isDigit r = '']]'' @ rest" using rest by (rule stripPrefix_SomeD)
  finally have "r = takeWhile isDigit r @ '']]'' @ rest" .
  moreover have "s = ''[[PAGE:'' @ r" using r by (rule stripPrefix_SomeD)
  moreover have "list_all isDigit (takeWhile isDigit r)"
    by (simp add: list_all_iff) (meson set_takeWhileD)
  ultimately show ?thesis using ne m by simp
qed

lemma firstPageOf_None_iff: "firstPageOf s = None \<longleftrightarrow> \<not> hasMarker s"
proof (induction s)
  case Nil
  show ?case by (simp add: hasMarker_def)
next
  case (Cons c cs)
  show ?case
  proof (cases "matchPageMarker (c # cs)")
    case (Some m)
    from matchPageMarker_SomeD [OF Some] have "hasMarker (c # cs)"
      unfolding hasMarker_def by (metis append_Nil)
    with Some show ?thesis by simp
  next
    case None
    have "hasMarker (c # cs) \<longleftrightarrow> hasMarker cs"
    proof
      assume "hasMarker (c # cs)"
      then obtain pre ds post where e: "c # cs = pre @ ''[[PAGE:'' @ ds @ '']]'' @ post"
        and d: "ds \<noteq> []" "list_all isDigit ds" unfolding hasMarker_def by blast
      show "hasMarker cs"
      proof (cases pre)
        case Nil
        with e have "c # cs = ''[[PAGE:'' @ ds @ '']]'' @ post" by simp
        with matchPageMarker_marker [OF d(2) d(1), of post] None show ?thesis by simp
      next
        case (Cons x pre')
        with e have "cs = pre' @ ''[[PAGE:'' @ ds @ '']]'' @ post" by simp
        with d show ?thesis unfolding hasMarker_def by blast
      qed
    next
      assume "hasMarker cs"
      then obtain pre ds post where "cs = pre @ ''[[PAGE:'' @ ds @ '']]'' @ post"
        and d: "ds \<noteq> []" "list_all isDigit ds" unfolding hasMarker_def by blast
      then have "c # cs = (c # pre) @ ''[[PAGE:'' @ ds @ '']]'' @ post" by simp
      with d show "hasMarker (c # cs)" unfolding hasMarker_def by blast
    qed
    with None Cons show ?thesis by simp
  qed
qed

lemma hasMarker_sublist: "sublist u s \<Longrightarrow> hasMarker u \<Longrightarrow> hasMarker s"
proof -
  assume "sublist u s" and "hasMarker u"
  then obtain a b pre ds post where "s = a @ u @ b"
    and "u = pre @ ''[[PAGE:'' @ ds @ '']]'' @ post" and d: "ds \<noteq> []" "list_all isDigit ds"
    unfolding sublist_def hasMarker_def by blast
  then have "s = (a @ pre) @ ''[[PAGE:'' @ ds @ '']]'' @ (post @ b)" by simp
  with d show "hasMarker s" unfolding hasMarker_def by blast
qed

lemma firstPageOf_sublist: "sublist u s \<Longrightarrow> firstPageOf s = None \<Longrightarrow> firstPageOf u = None"
  using hasMarker_sublist by (auto simp: firstPageOf_None_iff)

lemma firstPageOf_marker: "firstPageOf (pageMarker k @ rest) = Some k"
proof -
  have m: "matchPageMarker (pageMarker k @ rest) = Some (showNat k, rest)"
    using matchPageMarker_marker [of "showNat k" rest] showNat_digits [of k]
    by (simp add: pageMarker_def)
  have "pageMarker k @ rest = CHR ''['' # (''[PAGE:'' @ showNat k @ '']]'' @ rest)"
    by (simp add: pageMarker_def)
  then show ?thesis using m by (simp add: parseInt_showNat)
qed

lemma contentPattern3_marker: "contentPattern3 (pageMarker k)"
proof -
  have "matchPageMarker (pageMarker k @ []) = Some (showNat k, [])"
    using matchPageMarker_marker [of "showNat k" "[]"] showNat_digits [of k]
    by (simp add: pageMarker_def)
  then show ?thesis by (simp add: contentPattern3_def)
qed

lemma digit_not_space: "isDigit c \<Longrightarrow> \<not> isSpace c"
  by (auto simp: isDigit_def isSpace_def)

lemma pageMarker_chars: "c \<in> set (pageMarker k) \<Longrightarrow> \<not> isSpace c"
proof -
  assume "c \<in> set (pageMarker k)"
  then have "c \<in> set ''[[PAGE:]]'' \<or> c \<in> set (showNat k)" by (auto simp: pageMarker_def)
  then show ?thesis
  proof
    assume "c \<in> set ''[[PAGE:]]''"
    then show ?thesis by (auto simp: isSpace_def)
  next
    assume "c \<in> set (showNat k)"
    with showNat_digits [of k] have "isDigit c" by (simp add: list_all_iff)
    then show ?thesis by (rule digit_not_space)
  qed
qed

lemma pageMarker_nonempty: "pageMarker k \<noteq> []"
  by (simp add: pageMarker_def)

subsection \<open>Splitting at line feeds\<close>

declare splitAcc.simps [simp del]

lemma nlSeparator_reNewlines2: "nlSeparator reNewlines2"
  by (simp add: nlSeparator_def reNewlines2_def)

lemma nlSeparator_reNewline: "nlSeparator reNewline"
  by (simp add: nlSeparator_def reNewline_def)

lemma splitAcc_Nil: "splitAcc m p acc [] = [rev acc]"
  by (simp add: splitAcc.simps)

lemma splitAcc_none:
  "m p (c # cs) = None \<Longrightarrow> splitAcc m p acc (c # cs) = splitAcc m (Some c) (c # acc) cs"
  by (simp add: splitAcc.simps)

lemma splitAcc_match:
  "m p (c # cs) = Some k \<Longrightarrow> 0 < k \<and> k \<le> length (c # cs) \<Longrightarrow>
   splitAcc m p acc (c # cs)
     = rev acc # splitAcc m (Some ((c # cs) ! (k - 1))) [] (drop k (c # cs))"
  by (simp add: splitAcc.simps)

lemma splitAcc_skipped:
  "m p (c # cs) = Some k \<Longrightarrow> \<not> (0 < k \<and> k \<le> length (c # cs)) \<Longrightarrow>
   splitAcc m p acc (c # cs) = splitAcc m (Some c) (c # acc) cs"
  by (simp only: splitAcc.simps option.case if_False)

lemma splitAcc_nonempty: "splitAcc m p acc s \<noteq> []"
  by (induction m p acc s rule: splitAcc.induct)
     (auto simp: splitAcc.simps split: option.splits)

lemma splitAcc_prev:
  assumes "nlSeparator m"
  shows "splitAcc m p acc s = splitAcc m p' acc s"
proof (cases s)
  case Nil
  then show ?thesis by (simp add: splitAcc.simps)
next
  case (Cons c cs)
  from assms have mp: "m p (c # cs) = m p' (c # cs)" by (simp add: nlSeparator_def)
  show ?thesis unfolding Cons by (simp only: splitAcc.simps mp)
qed

lemma splitAcc_acc:
  "splitAcc m p (acc @ a) s = (rev a @ hd (splitAcc m p acc s)) # tl (splitAcc m p acc s)"
proof (induction m p acc s rule: splitAcc.induct)
  case (1 m prev acc)
  show ?case by (simp add: splitAcc.simps)
next
  case (2 m prev acc c cs)
  show ?case
  proof (cases "m prev (c # cs)")
    case None
    from "2.IH"(1) [OF None] show ?thesis
      by (simp only: splitAcc_none [of m prev c cs, OF None] append_Cons)
  next
    case (Some k)
    show ?thesis
    proof (cases "0 < k \<and> k \<le> length (c # cs)")
      case True
      show ?thesis by (simp add: splitAcc_match [of m prev c cs k, OF Some True])
    next
      case False
      from "2.IH"(3) [OF Some False] show ?thesis
        by (simp only: splitAcc_skipped [of m prev c cs k, OF Some False] append_Cons)
    qed
  qed
qed

lemma sublist_trans: "sublist a b \<Longrightarrow> sublist b c \<Longrightarrow> sublist a c"
  unfolding sublist_def by (metis append.assoc)

lemma splitAcc_sublist: "x \<in> set (splitAcc m p acc s) \<Longrightarrow> sublist x (rev acc @ s)"
proof (induction m p acc s arbitrary: x rule: splitAcc.induct)
  case (1 m prev acc)
  then show ?case by (simp add: splitAcc.simps)
next
  case (2 m prev acc c cs)
  show ?case
  proof (cases "m prev (c # cs)")
    case None
    from "2.prems" have "x \<in> set (splitAcc m (Some c) (c # acc) cs)"
      by (simp only: splitAcc_none [of m prev c cs, OF None])
    from "2.IH"(1) [OF None this] show ?thesis by simp
  next
    case (Some k)
    show ?thesis
    proof (cases "0 < k \<and> k \<le> length (c # cs)")
      case True
      with Some "2.prems" have "x = rev acc \<or>
          x \<in> set (splitAcc m (Some ((c # cs) ! (k - 1))) [] (drop k (c # cs)))"
        by (simp add: splitAcc_match [of m prev c cs k, OF Some True])
      then show ?thesis
      proof
        assume "x = rev acc"
        then show ?thesis by (simp add: sublist_append_rightI)
      next
        assume "x \<in> set (splitAcc m (Some ((c # cs) ! (k - 1))) [] (drop k (c # cs)))"
        with "2.IH"(2) [OF Some True] have "sublist x (drop k (c # cs))" by simp
        moreover have "sublist (drop k (c # cs)) (rev acc @ c # cs)"
          by (metis append_take_drop_id sublist_append_leftI append.assoc)
        ultimately show ?thesis by (rule sublist_trans)
      qed
    next
      case False
      from "2.prems" have "x \<in> set (splitAcc m (Some c) (c # acc) cs)"
        by (simp only: splitAcc_skipped [of m prev c cs k, OF Some False])
      from "2.IH"(3) [OF Some False this] show ?thesis by simp
    qed
  qed
qed

lemma splitAcc_hd_prefix: "\<exists>y. hd (splitAcc m p acc s) = rev acc @ y \<and> prefix y s"
proof (induction m p acc s rule: splitAcc.induct)
  case (1 m prev acc)
  show ?case by (simp add: splitAcc.simps)
next
  case (2 m prev acc c cs)
  show ?case
  proof (cases "m prev (c # cs)")
    case None
    with "2.IH"(1) obtain y where "hd (splitAcc m (Some c) (c # acc) cs) = rev (c # acc) @ y"
      and "prefix y cs" by blast
    then have "hd (splitAcc m (Some c) (c # acc) cs) = rev acc @ (c # y) \<and> prefix (c # y) (c # cs)"
      by simp
    then show ?thesis unfolding splitAcc_none [of m prev c cs, OF None] by blast
  next
    case (Some k)
    show ?thesis
    proof (cases "0 < k \<and> k \<le> length (c # cs)")
      case True
      have "hd (splitAcc m prev acc (c # cs)) = rev acc @ []"
        by (simp add: splitAcc_match [of m prev c cs k, OF Some True])
      then show ?thesis by (metis Nil_prefix)
    next
      case False
      with "2.IH"(3) [OF Some] obtain y where "hd (splitAcc m (Some c) (c # acc) cs) = rev (c # acc) @ y"
        and "prefix y cs" by blast
      then have "hd (splitAcc m (Some c) (c # acc) cs) = rev acc @ (c # y) \<and> prefix (c # y) (c # cs)"
        by simp
      then show ?thesis unfolding splitAcc_skipped [of m prev c cs k, OF Some False] by blast
    qed
  qed
qed

lemma splitAcc_skip:
  assumes "nlSeparator m" and "\<forall>c \<in> set M. c \<noteq> CHR 0x0A"
  shows "splitAcc m p acc (M @ s) = splitAcc m p' (rev M @ acc) s"
  using assms(2)
proof (induction M arbitrary: p acc)
  case Nil
  show ?case using splitAcc_prev [OF assms(1)] by simp
next
  case (Cons c M)
  then have "c \<noteq> CHR 0x0A" by simp
  with assms(1) have "m p (c # M @ s) = None" by (simp add: nlSeparator_def)
  then have "splitAcc m p acc ((c # M) @ s) = splitAcc m (Some c) (c # acc) (M @ s)"
    by (simp add: splitAcc_none)
  also have "\<dots> = splitAcc m p' (rev M @ c # acc) s" using Cons by simp
  finally show ?case by simp
qed

lemma takeWhile_all: "\<forall>x \<in> set xs. P x \<Longrightarrow> takeWhile P xs = xs"
  by (induction xs) auto

lemma takeWhile_nl_append:
  assumes "R \<noteq> []" and "hd R \<noteq> CHR 0x0A"
  shows "takeWhile (\<lambda>c. c = CHR 0x0A) (xs @ R) = takeWhile (\<lambda>c. c = CHR 0x0A) xs"
proof (cases "\<forall>x \<in> set xs. x = CHR 0x0A")
  case True
  from assms have "takeWhile (\<lambda>c. c = CHR 0x0A) R = []" by (cases R) simp_all
  then have "takeWhile (\<lambda>c. c = CHR 0x0A) (xs @ R) = xs" using True by (simp add: takeWhile_append2)
  then show ?thesis by (simp only: takeWhile_all [OF True])
next
  case False
  then obtain x where "x \<in> set xs" and "x \<noteq> CHR 0x0A" by blast
  then show ?thesis by (simp add: takeWhile_append1)
qed

lemma reNewlines2_append:
  assumes "R \<noteq> []" and "hd R \<noteq> CHR 0x0A"
  shows "reNewlines2 p (xs @ R) = reNewlines2 p xs"
  by (simp add: reNewlines2_def takeWhile_nl_append [OF assms])

lemma reNewlines2_SomeD:
  "reNewlines2 p s = Some k \<Longrightarrow> k = length (takeWhile (\<lambda>c. c = CHR 0x0A) s) \<and> 2 \<le> k \<and> k \<le> length s"
  by (auto simp: reNewlines2_def Let_def length_takeWhile_le split: if_splits)

lemma splitAcc_blocks_append:
  assumes R: "R \<noteq> []" "hd R \<noteq> CHR 0x0A"
  shows "set (splitAcc reNewlines2 p acc (t @ CHR 0x0A # CHR 0x0A # R))
           \<subseteq> set (splitAcc reNewlines2 p acc (t @ [CHR 0x0A, CHR 0x0A]))
               \<union> set (splitAcc reNewlines2 p' [] R)"
proof (induction t arbitrary: p acc rule: length_induct)
  case (1 t)
  let ?nn = "[CHR 0x0A, CHR 0x0A]"
  let ?P = "\<lambda>c. c = CHR 0x0A"
  have app: "xs @ CHR 0x0A # CHR 0x0A # R = (xs @ ?nn) @ R" for xs by simp
  obtain c cs where ccs: "t @ ?nn = c # cs" by (cases "t @ ?nn") simp_all
  have ccsR: "t @ CHR 0x0A # CHR 0x0A # R = c # (cs @ R)"
    unfolding app ccs by simp
  have m: "reNewlines2 p (c # (cs @ R)) = reNewlines2 p (c # cs)"
    using reNewlines2_append [OF R, of p "c # cs"] by simp
  show ?case
  proof (cases "reNewlines2 p (c # cs)")
    case None
    then have "t \<noteq> []" using ccs by (auto simp: reNewlines2_def)
    then obtain t' where t': "t = c # t'" using ccs by (cases t) simp_all
    with ccs have cs: "cs = t' @ ?nn" by simp
    then have csR: "cs @ R = t' @ CHR 0x0A # CHR 0x0A # R" by simp
    from None m have n2: "reNewlines2 p (c # (cs @ R)) = None" by simp
    have "length t' < length t" using t' by simp
    with 1 have "set (splitAcc reNewlines2 (Some c) (c # acc) (t' @ CHR 0x0A # CHR 0x0A # R))
           \<subseteq> set (splitAcc reNewlines2 (Some c) (c # acc) (t' @ ?nn))
               \<union> set (splitAcc reNewlines2 p' [] R)" by blast
    then show ?thesis
      unfolding ccsR ccs
      unfolding splitAcc_none [of reNewlines2 p c "cs @ R", OF n2]
                splitAcc_none [of reNewlines2 p c cs, OF None]
      unfolding cs by simp
  next
    case (Some k)
    from reNewlines2_SomeD [OF Some]
    have k: "k = length (takeWhile ?P (c # cs))" "2 \<le> k" "k \<le> length (c # cs)" by simp_all
    from Some m have s2: "reNewlines2 p (c # (cs @ R)) = Some k" by simp
    have c1: "0 < k \<and> k \<le> length (c # cs)" using k(2,3) by linarith
    have c2: "0 < k \<and> k \<le> length (c # (cs @ R))" using c1 by simp
    have dr: "drop k (c # (cs @ R)) = drop k (c # cs) @ R"
      using k(3) by (metis append_Cons drop_append diff_is_0_eq drop0)
    have lhs: "splitAcc reNewlines2 p acc (t @ CHR 0x0A # CHR 0x0A # R)
                 = rev acc # splitAcc reNewlines2 (Some ((c # (cs @ R)) ! (k - 1))) []
                               (drop k (c # cs) @ R)"
      unfolding ccsR splitAcc_match [of reNewlines2 p c "cs @ R" k acc, OF s2 c2] dr ..
    have rhs: "splitAcc reNewlines2 p acc (t @ ?nn)
                 = rev acc # splitAcc reNewlines2 (Some ((c # cs) ! (k - 1))) [] (drop k (c # cs))"
      unfolding ccs splitAcc_match [of reNewlines2 p c cs k acc, OF Some c1] ..
    show ?thesis
    proof (cases "\<forall>x \<in> set t. x = CHR 0x0A")
      case True
      then have "\<forall>x \<in> set (t @ ?nn). ?P x" by simp
      then have "takeWhile ?P (c # cs) = c # cs" unfolding ccs by (rule takeWhile_all)
      then have "k = length (c # cs)" by (simp only: k(1))
      then have "drop k (c # cs) = []" by simp
      then have e: "set (splitAcc reNewlines2 p acc (t @ CHR 0x0A # CHR 0x0A # R))
                   = insert (rev acc) (set (splitAcc reNewlines2 p' [] R))"
        unfolding lhs
        using splitAcc_prev [OF nlSeparator_reNewlines2,
                of "Some ((c # (cs @ R)) ! (k - 1))" "[]" R p']
        by simp
      have r: "rev acc \<in> set (splitAcc reNewlines2 p acc (t @ ?nn))"
        unfolding rhs by simp
      show ?thesis unfolding e using r by simp
    next
      case False
      then obtain x where x: "x \<in> set t" "x \<noteq> CHR 0x0A" by blast
      then have tw: "takeWhile ?P (t @ ?nn) = takeWhile ?P t" by (simp add: takeWhile_append1)
      have kt: "k \<le> length t" unfolding k(1) ccs [symmetric] tw by (rule length_takeWhile_le)
      then have d: "drop k (c # cs) = drop k t @ ?nn" unfolding ccs [symmetric] by simp
      have "length (drop k t) < length t" using k(2) kt x(1) by (cases t) simp_all
      with 1 have ih: "set (splitAcc reNewlines2 (Some ((c # (cs @ R)) ! (k - 1))) []
                          (drop k t @ CHR 0x0A # CHR 0x0A # R))
          \<subseteq> set (splitAcc reNewlines2 (Some ((c # (cs @ R)) ! (k - 1))) [] (drop k t @ ?nn))
               \<union> set (splitAcc reNewlines2 p' [] R)" by blast
      have pv: "splitAcc reNewlines2 (Some ((c # (cs @ R)) ! (k - 1))) [] (drop k t @ ?nn)
          = splitAcc reNewlines2 (Some ((c # cs) ! (k - 1))) [] (drop k t @ ?nn)"
        by (rule splitAcc_prev [OF nlSeparator_reNewlines2])
      have ap: "(drop k t @ ?nn) @ R = drop k t @ CHR 0x0A # CHR 0x0A # R" by simp
      show ?thesis unfolding lhs rhs d ap using ih unfolding pv by auto
    qed
  qed
qed

subsection \<open>The blocks of pages without markers of their own\<close>

lemma nl_isSpace: "isSpace (CHR 0x0A)"
  by (simp add: isSpace_def)

lemma trim_sublist: "sublist (trim s) s"
proof -
  have "sublist (rev (dropWhile isSpace (rev (dropWhile isSpace s)))) (dropWhile isSpace s)"
    by (simp add: sublist_rev_left)
  then show ?thesis unfolding trim_def by (rule sublist_trans) simp
qed

lemma firstPageOf_trim: "firstPageOf s = None \<Longrightarrow> firstPageOf (trim s) = None"
  using firstPageOf_sublist [OF trim_sublist] .

lemma dropWhile_hd: "s \<noteq> [] \<Longrightarrow> \<not> P (hd s) \<Longrightarrow> dropWhile P s = s"
  by (cases s) simp_all

lemma trim_prefix:
  assumes "M \<noteq> []" and "\<not> isSpace (hd M)" and "\<not> isSpace (last M)"
  shows "\<exists>z. trim (M @ y) = M @ z \<and> prefix z y"
proof -
  have d: "dropWhile isSpace (M @ y) = M @ y" using assms(1,2) by (simp add: dropWhile_hd)
  have r: "dropWhile isSpace (rev M) = rev M"
    using assms(1,3) by (simp add: dropWhile_hd hd_rev)
  show ?thesis
  proof (cases "\<forall>c \<in> set (rev y). isSpace c")
    case True
    then have "dropWhile isSpace (rev y @ rev M) = rev M" by (simp add: dropWhile_append r)
    then have "trim (M @ y) = M @ []" by (simp add: trim_def d)
    then show ?thesis by (metis Nil_prefix)
  next
    case False
    then have "dropWhile isSpace (rev y @ rev M) = dropWhile isSpace (rev y) @ rev M"
      by (auto simp: dropWhile_append)
    then have t: "trim (M @ y) = M @ rev (dropWhile isSpace (rev y))" by (simp add: trim_def d)
    have "suffix (dropWhile isSpace (rev y)) (rev y)" by (rule suffix_dropWhile)
    then have "prefix (rev (dropWhile isSpace (rev y))) y" by (simp add: suffix_to_prefix)
    with t show ?thesis by blast
  qed
qed

lemma pageMarker_ends: "\<not> isSpace (hd (pageMarker k)) \<and> \<not> isSpace (last (pageMarker k))"
  using pageMarker_chars [of _ k] pageMarker_nonempty [of k] by (metis hd_in_set last_in_set)

lemma pageMarker_no_nl: "\<forall>c \<in> set (pageMarker k). c \<noteq> CHR 0x0A"
  using pageMarker_chars [of _ k] nl_isSpace by blast

lemma trim_pageMarker: "trim (pageMarker k) = pageMarker k"
proof -
  from trim_prefix [OF pageMarker_nonempty, of k "[]"] pageMarker_ends [of k]
  show ?thesis by simp
qed

lemma headerTitle_marker_line:
  assumes "z = [] \<or> hd z = CHR 0x0A"
  shows "headerTitle (pageMarker k @ z) = None"
proof -
  let ?M = "pageMarker k"
  have s: "split reNewline (?M @ z) = splitAcc reNewline None (rev ?M) z"
    unfolding split_def
    using splitAcc_skip [where m = reNewline and M = "pageMarker k" and p = None and acc = "[]"
                           and s = z and p' = None, OF nlSeparator_reNewline pageMarker_no_nl]
    by simp
  have "\<exists>rest. split reNewline (?M @ z) = ?M # rest"
  proof (cases z)
    case Nil
    then show ?thesis unfolding s by (simp add: splitAcc_Nil)
  next
    case (Cons c z')
    with assms have c: "c = CHR 0x0A" by simp
    have "reNewline None (c # z') = Some 1" by (simp add: reNewline_def c)
    from splitAcc_match [of reNewline None c z' 1 "rev ?M", OF this]
    have "splitAcc reNewline None (rev ?M) (c # z') = ?M # splitAcc reNewline (Some c) [] z'"
      by simp
    then have "split reNewline (?M @ c # z') = ?M # splitAcc reNewline (Some c) [] z'"
      by (simp only: s [unfolded Cons])
    then show ?thesis unfolding Cons by blast
  qed
  then obtain rest where r: "split reNewline (?M @ z) = ?M # rest" by blast
  have "isLikelyHeader (trim ?M) = None"
    by (simp add: isLikelyHeader_def trim_pageMarker contentPattern3_marker)
  then show ?thesis
    by (simp add: headerTitle_def r trim_pageMarker pageMarker_nonempty)
qed

lemma firstPageOf_nl: "firstPageOf (CHR 0x0A # u) = firstPageOf u"
  by (simp add: matchPageMarker_def stripPrefix_def)

lemma page_pieces:
  assumes "firstPageOf u = None"
    and "x \<in> set (splitAcc reNewlines2 p [] (pageMarker k @ CHR 0x0A # u))"
  shows "firstPageOf (trim x) = None \<or>
         (headerTitle (trim x) = None \<and> firstPageOf (trim x) = Some k)"
proof -
  let ?M = "pageMarker k"
  let ?Z = "splitAcc reNewlines2 p [] (CHR 0x0A # u)"
  have "splitAcc reNewlines2 p [] (?M @ CHR 0x0A # u)
          = splitAcc reNewlines2 p ([] @ rev ?M) (CHR 0x0A # u)"
    using splitAcc_skip [where m = reNewlines2 and M = "pageMarker k" and p = p and acc = "[]"
                           and s = "CHR 0x0A # u" and p' = p,
                         OF nlSeparator_reNewlines2 pageMarker_no_nl]
    by simp
  also have "\<dots> = (?M @ hd ?Z) # tl ?Z" by (simp only: splitAcc_acc rev_rev_ident)
  finally have "x = ?M @ hd ?Z \<or> x \<in> set (tl ?Z)" using assms(2) by simp
  then show ?thesis
  proof
    assume x: "x = ?M @ hd ?Z"
    from splitAcc_hd_prefix [of reNewlines2 p "[]" "CHR 0x0A # u"]
    have py: "prefix (hd ?Z) (CHR 0x0A # u)" by simp
    from trim_prefix [OF pageMarker_nonempty, of k "hd ?Z"] pageMarker_ends [of k]
    obtain z where z: "trim x = ?M @ z" and pz: "prefix z (hd ?Z)" unfolding x by blast
    from pz py have "prefix z (CHR 0x0A # u)" by (rule prefix_order.trans)
    then have "z = [] \<or> hd z = CHR 0x0A" by (cases z) simp_all
    then have "headerTitle (trim x) = None" unfolding z by (rule headerTitle_marker_line)
    moreover have "firstPageOf (trim x) = Some k" unfolding z by (rule firstPageOf_marker)
    ultimately show ?thesis by simp
  next
    assume "x \<in> set (tl ?Z)"
    then have "x \<in> set ?Z" by (metis list.set_sel(2) splitAcc_nonempty)
    then have "sublist x (CHR 0x0A # u)" using splitAcc_sublist [of x reNewlines2 p "[]"] by simp
    then have "firstPageOf x = None"
      by (rule firstPageOf_sublist) (simp only: firstPageOf_nl assms(1))
    then show ?thesis by (simp add: firstPageOf_trim)
  qed
qed

lemma hasMarker_snoc_nl: "hasMarker (t @ [CHR 0x0A]) \<Longrightarrow> hasMarker t"
proof -
  assume "hasMarker (t @ [CHR 0x0A])"
  then obtain pre ds post where e: "t @ [CHR 0x0A] = pre @ ''[[PAGE:'' @ ds @ '']]'' @ post"
    and d: "ds \<noteq> []" "list_all isDigit ds" unfolding hasMarker_def by blast
  show "hasMarker t"
  proof (cases post rule: rev_cases)
    case Nil
    with e have "last (t @ [CHR 0x0A]) = last (pre @ ''[[PAGE:'' @ ds @ '']]'')" by simp
    then show ?thesis by simp
  next
    case (snoc post' c)
    with e have "t @ [CHR 0x0A] = (pre @ ''[[PAGE:'' @ ds @ '']]'' @ post') @ [c]" by simp
    then have "t = pre @ ''[[PAGE:'' @ ds @ '']]'' @ post'" by (simp only: append1_eq_conv)
    with d show ?thesis unfolding hasMarker_def by blast
  qed
qed

lemma firstPageOf_append_nn:
  "firstPageOf t = None \<Longrightarrow> firstPageOf (t @ [CHR 0x0A, CHR 0x0A]) = None"
proof -
  assume "firstPageOf t = None"
  then have "\<not> hasMarker t" by (simp add: firstPageOf_None_iff)
  then have "\<not> hasMarker ((t @ [CHR 0x0A]) @ [CHR 0x0A])"
    using hasMarker_snoc_nl by blast
  then show ?thesis by (simp add: firstPageOf_None_iff)
qed

lemma taggedPages_single: "taggedPages i [t] = pageMarker (i + 1) @ CHR 0x0A # t"
  by (simp add: taggedPages_def)

lemma taggedPages_Cons2:
  "ts \<noteq> [] \<Longrightarrow>
   taggedPages i (t # ts)
     = (pageMarker (i + 1) @ CHR 0x0A # t) @ CHR 0x0A # CHR 0x0A # taggedPages (Suc i) ts"
  by (cases ts) (simp_all add: taggedPages_def)

lemma taggedPages_hd:
  "ts \<noteq> [] \<Longrightarrow> taggedPages i ts \<noteq> [] \<and> hd (taggedPages i ts) \<noteq> CHR 0x0A"
proof -
  assume "ts \<noteq> []"
  then obtain t ts' where ts: "ts = t # ts'" by (cases ts) auto
  have "\<exists>r. taggedPages i (t # ts') = pageMarker (i + 1) @ r"
  proof (cases "ts' = []")
    case True
    then show ?thesis by (simp add: taggedPages_single)
  next
    case False
    then show ?thesis by (simp add: taggedPages_Cons2)
  qed
  then obtain r where r: "taggedPages i ts = pageMarker (i + 1) @ r" unfolding ts by blast
  have "hd (pageMarker (i + 1) @ r) = hd (pageMarker (i + 1))"
    by (simp add: pageMarker_nonempty)
  moreover have "hd (pageMarker (i + 1)) \<noteq> CHR 0x0A"
    using pageMarker_ends [of "i + 1"] nl_isSpace by metis
  ultimately show ?thesis unfolding r by (simp add: pageMarker_nonempty)
qed

lemma blockOK_mono: "blockOK lo hi b \<Longrightarrow> lo' \<le> lo \<Longrightarrow> hi \<le> hi' \<Longrightarrow> blockOK lo' hi' b"
  unfolding blockOK_def by (meson le_less_trans le_trans)

lemma pieces_ok:
  assumes "\<forall>t \<in> set ts. firstPageOf t = None"
    and "x \<in> set (splitAcc reNewlines2 p [] (taggedPages i ts))"
  shows "blockOK i (i + length ts) (trim x)"
  using assms
proof (induction ts arbitrary: i p x)
  case Nil
  then have "x = []" by (simp add: taggedPages_def splitAcc_Nil)
  then show ?case by (simp add: blockOK_def trim_def)
next
  case (Cons t ts)
  from Cons.prems(1) have t: "firstPageOf t = None" and ts: "\<forall>t \<in> set ts. firstPageOf t = None"
    by simp_all
  show ?case
  proof (cases "ts = []")
    case True
    with Cons.prems(2) have "x \<in> set (splitAcc reNewlines2 p [] (pageMarker (i + 1) @ CHR 0x0A # t))"
      by (simp only: taggedPages_single)
    from page_pieces [OF t this] show ?thesis using True by (auto simp: blockOK_def)
  next
    case False
    let ?R = "taggedPages (Suc i) ts"
    from taggedPages_hd [OF False, of "Suc i"] have R: "?R \<noteq> []" "hd ?R \<noteq> CHR 0x0A" by simp_all
    from Cons.prems(2)
    have "x \<in> set (splitAcc reNewlines2 p []
                      ((pageMarker (i + 1) @ CHR 0x0A # t) @ CHR 0x0A # CHR 0x0A # ?R))"
      by (simp only: taggedPages_Cons2 [OF False])
    with splitAcc_blocks_append [OF R, of p "[]" "pageMarker (i + 1) @ CHR 0x0A # t" p]
    have "x \<in> set (splitAcc reNewlines2 p [] ((pageMarker (i + 1) @ CHR 0x0A # t) @ [CHR 0x0A, CHR 0x0A]))
          \<or> x \<in> set (splitAcc reNewlines2 p [] ?R)" by blast
    then show ?thesis
    proof
      assume "x \<in> set (splitAcc reNewlines2 p [] ((pageMarker (i + 1) @ CHR 0x0A # t) @ [CHR 0x0A, CHR 0x0A]))"
      then have "x \<in> set (splitAcc reNewlines2 p [] (pageMarker (i + 1) @ CHR 0x0A # (t @ [CHR 0x0A, CHR 0x0A])))"
        by simp
      from page_pieces [OF firstPageOf_append_nn [OF t] this]
      show ?thesis by (auto simp: blockOK_def)
    next
      assume "x \<in> set (splitAcc reNewlines2 p [] ?R)"
      from Cons.IH [OF ts this] show ?thesis by (rule blockOK_mono) simp_all
    qed
  qed
qed

lemma blocksOf_ok:
  assumes "\<forall>t \<in> set rawPages. firstPageOf t = None" and "b \<in> set (blocksOf rawPages)"
  shows "blockOK 0 (length rawPages) b"
proof -
  from assms(2) obtain x where "x \<in> set (splitAcc reNewlines2 None [] (taggedPages 0 rawPages))"
    and "b = trim x" by (auto simp: blocksOf_def split_def)
  with pieces_ok [OF assms(1), of x None 0] show ?thesis by simp
qed

lemma blocksOf_Nil: "blocksOf [] = []"
  by (simp add: blocksOf_def split_def taggedPages_def splitAcc_Nil trim_def)

subsection \<open>The order of the page numbers\<close>

lemma flush_ordered:
  assumes "\<forall>s \<in> set secs. ordered s"
    and "\<forall>c a b. cur = Some c \<and> startPage_cur c = Some a \<and> endP = Some b \<longrightarrow> a \<le> b"
  shows "\<forall>s \<in> set (fst (flush uuid src endP (secs, cur))). ordered s"
  using assms by (cases cur) (auto simp: flush_def Let_def ordered_def)

lemma processBlock_inv:
  assumes "1 \<le> n" and "blockOK 0 n b" and "loopInv n st"
  shows "loopInv n (processBlock uuid src st b)"
proof -
  obtain secs cur ai where st: "st = (secs, cur, ai)" by (cases st) auto
  from assms(3) have secs: "\<forall>s \<in> set secs. ordered s"
    and cur: "\<forall>c a. cur = Some c \<and> startPage_cur c = Some a \<longrightarrow> a \<le> n"
    unfolding loopInv_def st by auto
  show ?thesis
  proof (cases "filter (\<lambda>l. trim l \<noteq> []) (split reNewline b) = []")
    case True
    with assms(3) show ?thesis by (simp add: processBlock_def st)
  next
    case False
    show ?thesis
    proof (cases "headerTitle b")
      case (Some t)
      with assms(2) have fp: "firstPageOf b = None" by (simp add: blockOK_def)
      have "\<forall>s \<in> set (fst (flush uuid src None (secs, cur))). ordered s"
        using secs by (rule flush_ordered) simp
      with False Some fp show ?thesis by (simp add: processBlock_def st loopInv_def)
    next
      case None
      from assms(1,2) have le: "(case firstPageOf b of Some p \<Rightarrow> p | None \<Rightarrow> 1) \<le> n"
        by (auto simp: blockOK_def split: option.splits)
      show ?thesis
      proof (cases cur)
        case None': None
        with False None le secs show ?thesis by (simp add: processBlock_def st loopInv_def)
      next
        case (Some c)
        with False None cur secs show ?thesis by (simp add: processBlock_def st loopInv_def)
      qed
    qed
  qed
qed

lemma foldl_processBlock_inv:
  assumes "1 \<le> n" and "\<forall>b \<in> set bs. blockOK 0 n b" and "loopInv n st"
  shows "loopInv n (foldl (processBlock uuid src) st bs)"
  using assms(2,3)
proof (induction bs arbitrary: st)
  case Nil
  then show ?case by simp
next
  case (Cons b bs)
  from Cons.prems have "loopInv n (processBlock uuid src st b)"
    using processBlock_inv [OF assms(1)] by simp
  with Cons show ?case by simp
qed

lemma headerSections_ordered:
  assumes "\<forall>t \<in> set rawPages. firstPageOf t = None"
  shows "\<forall>s \<in> set (headerSections uuid rawPages src). ordered s"
proof (cases "rawPages = []")
  case True
  then show ?thesis by (simp add: headerSections_def blocksOf_Nil flush_def)
next
  case False
  let ?n = "length rawPages"
  from False have n: "1 \<le> ?n" by (cases rawPages) simp_all
  have init: "loopInv ?n ([], None, 1)" by (simp add: loopInv_def)
  have "\<forall>b \<in> set (blocksOf rawPages). blockOK 0 ?n b" using blocksOf_ok [OF assms] by blast
  from foldl_processBlock_inv [OF n this init, of uuid src]
  obtain secs cur ai where f: "foldl (processBlock uuid src) ([], None, 1) (blocksOf rawPages) = (secs, cur, ai)"
    and inv: "loopInv ?n (secs, cur, ai)"
    by (cases "foldl (processBlock uuid src) ([], None, 1) (blocksOf rawPages)") auto
  from inv have "\<forall>s \<in> set (fst (flush uuid src (Some ?n) (secs, cur))). ordered s"
    by (intro flush_ordered) (auto simp: loopInv_def)
  then show ?thesis unfolding headerSections_def f by simp
qed

lemma fallbackWindows_ordered: "\<forall>s \<in> set (fallbackWindows uuid rawPages src i). ordered s"
proof (induction uuid rawPages src i rule: fallbackWindows.induct)
  case (1 uuid rawPages src i)
  show ?case
  proof (cases "i < length rawPages")
    case True
    then have "ordered (fallbackWindow uuid rawPages src i)"
      by (simp add: ordered_def fallbackWindow_def Let_def)
    with True 1 show ?thesis by (subst fallbackWindows.simps) simp
  next
    case False
    then show ?thesis by (subst fallbackWindows.simps) simp
  qed
qed

text \<open>
  C2, as amended. When no page text holds a page marker \<open>[[PAGE:n]]\<close> of its own, every
  section that \<open>splitChapters\<close> returns with both page numbers has its start page at or
  before its end page. The markers that \<open>splitChapters\<close> puts in front of the pages are then
  the only ones: each opens a block, whose first line is therefore no heading, so a section
  started by a heading has no start page and a section closed by a heading has no end page;
  the automatically named section starts at a page of the document and ends at the last one;
  and a fallback window starts at its first page and ends at its last.
\<close>

theorem splitChapters_page_order:
  assumes "\<forall>t \<in> set rawPages. firstPageOf t = None"
  shows "\<forall>s \<in> set (splitChapters uuid rawPages src).
           \<forall>a b. startPage s = Some a \<and> endPage s = Some b \<longrightarrow> a \<le> b"
  using headerSections_ordered [OF assms, of uuid src] fallbackWindows_ordered [of uuid rawPages src 0]
  by (simp add: splitChapters_def ordered_def)

theorem splitChapters_page_order_witness:
  "firstPageOf ''Chapter 1: Origins\<newline>Long paragraph A...'' = None \<and>
   firstPageOf ''More text...'' = None \<and>
   startPage (hd (splitChapters showNat
      [''Chapter 1: Origins\<newline>Long paragraph A...'', ''More text...''] ''doc'')) = Some 1 \<and>
   endPage (hd (splitChapters showNat
      [''Chapter 1: Origins\<newline>Long paragraph A...'', ''More text...''] ''doc'')) = Some 2 \<and>
   the (startPage (hd (splitChapters showNat
      [''Chapter 1: Origins\<newline>Long paragraph A...'', ''More text...''] ''doc'')))
     \<le> the (endPage (hd (splitChapters showNat
      [''Chapter 1: Origins\<newline>Long paragraph A...'', ''More text...''] ''doc'')))"
proof -
  let ?pages = "[''Chapter 1: Origins\<newline>Long paragraph A...'', ''More text...'']"
  let ?s = "hd (splitChapters showNat ?pages ''doc'')"
  have f1: "firstPageOf ''Chapter 1: Origins\<newline>Long paragraph A...'' = None" by code_simp
  have f2: "firstPageOf ''More text...'' = None" by code_simp
  have ne: "splitChapters showNat ?pages ''doc'' \<noteq> []" by code_simp
  have a: "startPage ?s = Some 1" by code_simp
  have b: "endPage ?s = Some 2" by code_simp
  have "\<forall>t \<in> set ?pages. firstPageOf t = None" using f1 f2 by simp
  from splitChapters_page_order [OF this, of showNat "''doc''"] ne
  have "\<forall>a b. startPage ?s = Some a \<and> endPage ?s = Some b \<longrightarrow> a \<le> b"
    by (metis hd_in_set)
  with a b have "the (startPage ?s) \<le> the (endPage ?s)" by simp
  with f1 f2 a b show ?thesis by (intro conjI)
qed

text \<open>
  The claim as it stands, for every sequence of page texts, fails when a page text holds a
  marker of its own. In the page below the block that starts with the heading
  \<open>Introduction\<close> holds \<open>[[PAGE:7]]\<close>: the section started there takes 7 as its start page,
  and the last \<open>flush\<close> ends it at page 1, the number of pages.
\<close>

theorem splitChapters_page_order_counterexample:
  "map (\<lambda>s. (title s, startPage s, endPage s))
     (splitChapters showNat
        [''a\<newline>\<newline>Introduction\<newline>[[PAGE:7]] this text is long enough to make the section count, really'']
        ''doc'')
   = [(''Introduction'', Some 7, Some 1)] \<and> \<not> (7 :: nat) \<le> 1"
proof -
  have "map (\<lambda>s. (title s, startPage s, endPage s))
     (splitChapters showNat
        [''a\<newline>\<newline>Introduction\<newline>[[PAGE:7]] this text is long enough to make the section count, really'']
        ''doc'')
   = [(''Introduction'', Some 7, Some 1)]"
    by code_simp
  then show ?thesis by simp
qed

declare showNat.simps [simp] splitAcc.simps [simp]

section \<open>Properties of the summarizer\<close>

text \<open>
  C8. A text with three sentences or fewer is returned trimmed and otherwise unchanged. The
  sentences are the pieces between the white space that follows \<open>.\<close>, \<open>!\<close> or \<open>?\<close>, blank pieces
  dropped.
\<close>

theorem summary_short_is_trim:
  "length (sentencesOf t) \<le> 3 \<Longrightarrow> generateExtractiveSummary t = trim t"
  by (simp add: generateExtractiveSummary_def)

theorem summary_short_is_trim_witness:
  "length (sentencesOf '' One. Two! Three?  '') \<le> 3 \<and>
   generateExtractiveSummary '' One. Two! Three?  '' = ''One. Two! Three?''"
proof -
  have h: "length (sentencesOf '' One. Two! Three?  '') \<le> 3" by code_simp
  have "trim '' One. Two! Three?  '' = ''One. Two! Three?''" by code_simp
  with h summary_short_is_trim [OF h] show ?thesis by simp
qed







lemma scores_enumerate:
  "map (\<lambda>(i, s). (i, g s)) (enumerate 0 S) = map (\<lambda>i. (i, g (S ! i))) [0 ..< length S]"
proof (rule nth_equalityI)
  show "length (map (\<lambda>(i, s). (i, g s)) (enumerate 0 S)) =
        length (map (\<lambda>i. (i, g (S ! i))) [0 ..< length S])" by simp
next
  fix i assume "i < length (map (\<lambda>(i, s). (i, g s)) (enumerate 0 S))"
  then have "i < length S" by simp
  then show "map (\<lambda>(i, s). (i, g s)) (enumerate 0 S) ! i =
             map (\<lambda>i. (i, g (S ! i))) [0 ..< length S] ! i"
    by (simp add: nth_enumerate_eq)
qed







section \<open>Properties of the retrieval\<close>

subsection \<open>Term counts and document frequencies\<close>

lemma map_of_mapSet: "map_of (mapSet k v m) = (map_of m)(k \<mapsto> v)"
  by (induction m) (auto simp: fun_eq_iff)

lemma getOr0_Nil: "getOr0 [] t = 0"
  by (simp add: getOr0_def)

lemma getOr0_bump: "getOr0 (bump m x) t = (if t = x then getOr0 m x + 1 else getOr0 m t)"
  by (simp add: bump_def getOr0_def map_of_mapSet)

lemma map_of_bump_None: "map_of (bump m x) t = None \<longleftrightarrow> t \<noteq> x \<and> map_of m t = None"
  by (simp add: bump_def map_of_mapSet)

lemma getOr0_foldl_bump: "getOr0 (foldl bump m toks) t = getOr0 m t + count_list toks t"
  by (induction toks arbitrary: m) (simp_all add: getOr0_bump)

lemma map_of_foldl_bump_None:
  "map_of (foldl bump m toks) t = None \<longleftrightarrow> t \<notin> set toks \<and> map_of m t = None"
  by (induction toks arbitrary: m) (auto simp: map_of_bump_None)

lemma map_of_foldl_bump:
  "t \<in> set toks \<Longrightarrow> map_of (foldl bump [] toks) t = Some (count_list toks t)"
proof -
  assume "t \<in> set toks"
  then obtain c where c: "map_of (foldl bump [] toks) t = Some c"
    using map_of_foldl_bump_None [of "[]" toks t] by auto
  have "getOr0 (foldl bump [] toks) t = count_list toks t"
    by (simp only: getOr0_foldl_bump getOr0_Nil add_0)
  with c show ?thesis by (simp add: getOr0_def)
qed

lemma map_of_map_entries:
  "map_of (map (\<lambda>(k, v). (k, h k v)) m) t = map_option (h t) (map_of m t)"
  by (induction m) auto

lemma map_of_weigh:
  "t \<in> set toks \<Longrightarrow>
   map_of (weigh N df toks) t = Some (real (count_list toks t) * idf N df t)"
  by (simp add: weigh_def map_of_map_entries map_of_foldl_bump)

lemma map_of_weigh_None: "t \<notin> set toks \<Longrightarrow> map_of (weigh N df toks) t = None"
  by (simp add: weigh_def map_of_map_entries map_of_foldl_bump_None)

lemma count_list_distinct: "distinct xs \<Longrightarrow> count_list xs t = (if t \<in> set xs then 1 else 0)"
  by (induction xs) auto

lemma getOr0_documentFrequency_acc:
  "getOr0 (foldl (\<lambda>df d. foldl bump df (rev (remdups (rev d)))) m docs) t
     = getOr0 m t + length (filter (\<lambda>d. t \<in> set d) docs)"
  by (induction docs arbitrary: m) (simp_all add: getOr0_foldl_bump count_list_distinct)

lemma getOr0_documentFrequency:
  "getOr0 (documentFrequency docs) t = length (filter (\<lambda>d. t \<in> set d) docs)"
  by (simp add: documentFrequency_def getOr0_documentFrequency_acc getOr0_Nil)

text \<open>
  C6. The TF-IDF weights. In the vector of paragraph \<open>i\<close>, every token \<open>t\<close> of the paragraph has
  the weight \<open>tf * (ln ((N + 1) / (df + 1)) + 1)\<close>, where \<open>tf\<close> counts \<open>t\<close> in the paragraph, \<open>N\<close> is
  the number of paragraphs and \<open>df\<close> the number of paragraphs of the same corpus that hold \<open>t\<close>;
  a string that is no token of the paragraph has no entry; the vocabulary returned is that
  \<open>df\<close>. \<open>vectorizeQuery\<close> weighs the tokens of the query by the same formula with the
  table and the \<open>N\<close> it is given, so a token with no entry in the table, read as 0, gets
  \<open>tf * (ln (N + 1) + 1)\<close>. The logarithm is the real one.
\<close>

theorem tfidf_weights:
  "(\<forall>i < length paragraphs. \<forall>t \<in> set (tokenize (paragraphs ! i)).
      map_of (fst (tfidfParagraphs paragraphs) ! i) t =
        Some (real (count_list (tokenize (paragraphs ! i)) t) *
              (ln (real (length paragraphs + 1) /
                   real (length (filter (\<lambda>p. t \<in> set (tokenize p)) paragraphs) + 1)) + 1))) \<and>
   (\<forall>i < length paragraphs. \<forall>t. t \<notin> set (tokenize (paragraphs ! i)) \<longrightarrow>
      map_of (fst (tfidfParagraphs paragraphs) ! i) t = None) \<and>
   (\<forall>t. getOr0 (snd (tfidfParagraphs paragraphs)) t
          = length (filter (\<lambda>p. t \<in> set (tokenize p)) paragraphs)) \<and>
   (\<forall>t \<in> set (tokenize q).
      map_of (vectorizeQuery q df N) t =
        Some (real (count_list (tokenize q) t) *
              (ln (real (N + 1) / real (getOr0 df t + 1)) + 1))) \<and>
   (\<forall>t \<in> set (tokenize q). map_of df t = None \<longrightarrow>
      map_of (vectorizeQuery q df N) t =
        Some (real (count_list (tokenize q) t) * (ln (real (N + 1)) + 1)))"
proof (intro conjI allI impI ballI)
  have df: "getOr0 (documentFrequency (map tokenize paragraphs)) t
              = length (filter (\<lambda>p. t \<in> set (tokenize p)) paragraphs)" for t
    by (simp add: getOr0_documentFrequency filter_map comp_def)
  show "getOr0 (snd (tfidfParagraphs paragraphs)) t
          = length (filter (\<lambda>p. t \<in> set (tokenize p)) paragraphs)" for t
    by (simp add: tfidfParagraphs_def Let_def df)
  show "map_of (fst (tfidfParagraphs paragraphs) ! i) t =
        Some (real (count_list (tokenize (paragraphs ! i)) t) *
              (ln (real (length paragraphs + 1) /
                   real (length (filter (\<lambda>p. t \<in> set (tokenize p)) paragraphs) + 1)) + 1))"
    if "i < length paragraphs" and "t \<in> set (tokenize (paragraphs ! i))" for i t
    using that by (simp add: tfidfParagraphs_def Let_def map_of_weigh idf_def df)
  show "map_of (fst (tfidfParagraphs paragraphs) ! i) t = None"
    if "i < length paragraphs" and "t \<notin> set (tokenize (paragraphs ! i))" for i t
    using that by (simp add: tfidfParagraphs_def Let_def map_of_weigh_None)
  show "map_of (vectorizeQuery q df N) t =
        Some (real (count_list (tokenize q) t) *
              (ln (real (N + 1) / real (getOr0 df t + 1)) + 1))"
    if "t \<in> set (tokenize q)" for t
    using that by (simp add: vectorizeQuery_def map_of_weigh idf_def)
  show "map_of (vectorizeQuery q df N) t =
        Some (real (count_list (tokenize q) t) * (ln (real (N + 1)) + 1))"
    if "t \<in> set (tokenize q)" and "map_of df t = None" for t
  proof -
    from that(2) have "getOr0 df t = 0" by (simp add: getOr0_def)
    with that(1) show ?thesis by (simp add: vectorizeQuery_def map_of_weigh idf_def)
  qed
qed


theorem tfidf_weights_witness:
  "tokenize ''The cat sat.'' = [''the'', ''cat'', ''sat''] \<and>
   tokenize ''the bird, the'' = [''the'', ''bird'', ''the''] \<and>
   map_of (fst (tfidfParagraphs [''The cat sat.'', ''The dog!'']) ! 0) ''cat''
     = Some (ln (3 / 2) + 1) \<and>
   map_of (fst (tfidfParagraphs [''The cat sat.'', ''The dog!'']) ! 0) ''the'' = Some 1 \<and>
   map_of (fst (tfidfParagraphs [''The cat sat.'', ''The dog!'']) ! 0) ''dog'' = None \<and>
   getOr0 (snd (tfidfParagraphs [''The cat sat.'', ''The dog!''])) ''the'' = 2 \<and>
   map_of (snd (tfidfParagraphs [''The cat sat.'', ''The dog!''])) ''bird'' = None \<and>
   map_of (vectorizeQuery ''the bird, the''
             (snd (tfidfParagraphs [''The cat sat.'', ''The dog!''])) 2) ''the'' = Some 2 \<and>
   map_of (vectorizeQuery ''the bird, the''
             (snd (tfidfParagraphs [''The cat sat.'', ''The dog!''])) 2) ''bird''
     = Some (ln 3 + 1)"
proof -
  let ?ps = "[''The cat sat.'', ''The dog!'']"
  let ?q = "''the bird, the''"
  let ?df = "snd (tfidfParagraphs ?ps)"
  have t0: "tokenize ''The cat sat.'' = [''the'', ''cat'', ''sat'']" by code_simp
  have t1: "tokenize ''The dog!'' = [''the'', ''dog'']" by code_simp
  have tq: "tokenize ?q = [''the'', ''bird'', ''the'']" by code_simp
  have dfe: "?df = documentFrequency (map tokenize ?ps)"
    by (simp add: tfidfParagraphs_def Let_def)
  have nb: "map_of ?df ''bird'' = None" unfolding dfe by code_simp
  note w = tfidf_weights [of ?ps ?q ?df 2]
  note w1 = w [THEN conjunct1, rule_format]
  note w2 = w [THEN conjunct2, THEN conjunct1, rule_format]
  note w3 = w [THEN conjunct2, THEN conjunct2, THEN conjunct1, rule_format]
  note w4 = w [THEN conjunct2, THEN conjunct2, THEN conjunct2, THEN conjunct1, rule_format]
  note w5 = w [THEN conjunct2, THEN conjunct2, THEN conjunct2, THEN conjunct2, rule_format]
  have c1: "map_of (fst (tfidfParagraphs ?ps) ! 0) ''cat'' = Some (ln (3 / 2) + 1)"
    using w1 [of 0 "''cat''"] by (simp add: t0 t1)
  have c2: "map_of (fst (tfidfParagraphs ?ps) ! 0) ''the'' = Some 1"
    using w1 [of 0 "''the''"] by (simp add: t0 t1)
  have c3: "map_of (fst (tfidfParagraphs ?ps) ! 0) ''dog'' = None"
    using w2 [of 0 "''dog''"] by (simp add: t0)
  have c4: "getOr0 ?df ''the'' = 2" using w3 [of "''the''"] by (simp add: t0 t1)
  have c5: "map_of (vectorizeQuery ?q ?df 2) ''the'' = Some 2"
    using w4 [of "''the''"] by (simp add: tq c4)
  have c6: "map_of (vectorizeQuery ?q ?df 2) ''bird'' = Some (ln 3 + 1)"
    using w5 [of "''bird''"] nb by (simp add: tq)
  show ?thesis
    by (intro conjI) (rule t0 tq c1 c2 c3 c4 nb c5 c6)+
qed

subsection \<open>Cosine similarity\<close>














lemma map_fst_weigh: "map fst (weigh N df toks) = map fst (foldl bump [] toks)"
  by (simp add: weigh_def case_prod_beta comp_def)










section \<open>Properties of the composer\<close>

subsection \<open>Ranking\<close>



lemma rankParagraphs_eq:
  "rankParagraphs question paras =
     take 3 (sortByScoreDesc (map (\<lambda>i. (i, paragraphScore question paras i)) [0 ..< length paras]))"
proof -
  have len: "length (fst (tfidfParagraphs paras)) = length paras"
    by (simp add: tfidfParagraphs_def Let_def)
  have "rankParagraphs question paras =
          take 3 (sortByScoreDesc
            (map (\<lambda>(i, v). (i, cosine (vectorizeQuery question (snd (tfidfParagraphs paras))
                                        (length paras)) v))
               (enumerate 0 (fst (tfidfParagraphs paras)))))"
    by (simp add: rankParagraphs_def case_prod_beta)
  then show ?thesis by (simp only: scores_enumerate len paragraphScore_def)
qed

lemma join_nonempty: "x \<noteq> [] \<Longrightarrow> join sep (x # xs) \<noteq> []"
  by (cases xs) simp_all

lemma generateEducationalResponse_nonempty:
  "generateEducationalResponse question content keyTerms \<noteq> []"
  by (simp add: generateEducationalResponse_def Let_def)

lemma handleEducationalExplanation_nonempty:
  "handleEducationalExplanation question c sections activeId \<noteq> []"
  by (simp add: handleEducationalExplanation_def Let_def unlines_def join_nonempty
                generateEducationalResponse_nonempty)

lemma generateEnhancedFallback_nonempty:
  "generateEnhancedFallback question c sections activeId \<noteq> []"
  by (simp add: generateEnhancedFallback_def couldNotFindMessage_def Let_def unlines_def
                join_nonempty handleEducationalExplanation_nonempty)


lemma relevantParagraphs_Nil: "relevantParagraphs question [] = []"
  by (simp add: relevantParagraphs_def rankParagraphs_eq sortByScoreDesc_def)

lemma dotProduct_disjoint:
  "\<forall>e \<in> set a. map_of b (fst e) = None \<Longrightarrow> dotProduct a b = 0"
  unfolding dotProduct_def by (induction a) (auto simp: case_prod_beta getOr0_def)

lemma cosine_disjoint: "\<forall>e \<in> set a. map_of b (fst e) = None \<Longrightarrow> cosine a b = 0"
  by (simp add: cosine_def dotProduct_disjoint)

lemma rankParagraphs_single:
  "rankParagraphs question [p] = [(0, paragraphScore question [p] 0)]"
  by (simp add: rankParagraphs_eq sortByScoreDesc_def)

lemma paragraphScore_single:
  "paragraphScore question [p] 0 =
     cosine (weigh 1 (documentFrequency [tokenize p]) (tokenize question))
            (weigh 1 (documentFrequency [tokenize p]) (tokenize p))"
  by (simp add: paragraphScore_def tfidfParagraphs_def vectorizeQuery_def Let_def)

lemma photo_example_not_relevant:
  "relevantParagraphs ''photo''
     [''Photosynthesis converts light energy into chemical energy in plants.''] = []"
proof -
  let ?p = "''Photosynthesis converts light energy into chemical energy in plants.''"
  have tq: "tokenize ''photo'' = [''photo'']" by code_simp
  have tp: "''photo'' \<notin> set (tokenize ?p)" by code_simp
  have keys: "map fst (weigh 1 (documentFrequency [tokenize ?p]) (tokenize ''photo'')) = [''photo'']"
    by (simp add: map_fst_weigh tq bump_def)
  have "\<forall>e \<in> set (weigh 1 (documentFrequency [tokenize ?p]) (tokenize ''photo'')).
          map_of (weigh 1 (documentFrequency [tokenize ?p]) (tokenize ?p)) (fst e) = None"
  proof
    fix e assume "e \<in> set (weigh 1 (documentFrequency [tokenize ?p]) (tokenize ''photo''))"
    then have "fst e \<in> set (map fst (weigh 1 (documentFrequency [tokenize ?p]) (tokenize ''photo'')))"
      by (simp only: set_map image_eqI)
    then have "fst e = ''photo''" by (simp only: keys) simp
    then show "map_of (weigh 1 (documentFrequency [tokenize ?p]) (tokenize ?p)) (fst e) = None"
      using map_of_weigh_None [OF tp] by (simp only:)
  qed
  then have "paragraphScore ''photo'' [?p] 0 = 0"
    by (simp only: paragraphScore_single cosine_disjoint)
  then show ?thesis by (simp add: relevantParagraphs_def rankParagraphs_single)
qed






subsection \<open>The deterministic path of \<open>demoAnswer\<close>\<close>

text \<open>
  C5, as amended. Without an AI service \<open>demoAnswer\<close> always returns a non-empty string; the
  path has no statement that can throw, and its model is a total function with no error
  value. A blank context gives the no-content message. For a question that asks for an
  educational explanation the answer is that of \<open>handleEducationalExplanation\<close>, whatever
  the paragraphs of the context are. For any other question, a context without a paragraph
  of more than 50 characters gives the insufficient-content message, and a context none of
  whose ranked paragraphs scores above 0.1 gives the could-not-find guidance message with the
  source line.
\<close>

theorem demoAnswer_paths:
  "demoAnswer None question c sections activeId \<noteq> [] \<and>
   (trim c = [] \<longrightarrow> demoAnswer None question c sections activeId = noContentMessage) \<and>
   (trim c \<noteq> [] \<and> isEducationalExplanationRequest question \<longrightarrow>
      demoAnswer None question c sections activeId
        = handleEducationalExplanation question (cleanContent c) sections activeId) \<and>
   (trim c \<noteq> [] \<and> \<not> isEducationalExplanationRequest question \<and>
    paragraphsOf (cleanContent c) = [] \<longrightarrow>
      demoAnswer None question c sections activeId = insufficientContentMessage) \<and>
   (trim c \<noteq> [] \<and> \<not> isEducationalExplanationRequest question \<and>
    paragraphsOf (cleanContent c) \<noteq> [] \<and>
    relevantParagraphs question (paragraphsOf (cleanContent c)) = [] \<longrightarrow>
      demoAnswer None question c sections activeId
        = couldNotFindMessage (getSourceInfo sections activeId))"
proof (intro conjI impI)
  show "demoAnswer None question c sections activeId \<noteq> []"
    by (simp add: demoAnswer_def generateRuleBasedAnswer_def noContentMessage_def
          insufficientContentMessage_def handleEducationalExplanation_nonempty
          generateEnhancedFallback_nonempty)
next
  assume "trim c = []"
  then show "demoAnswer None question c sections activeId = noContentMessage"
    by (simp add: demoAnswer_def)
next
  assume "trim c \<noteq> [] \<and> isEducationalExplanationRequest question"
  then show "demoAnswer None question c sections activeId
        = handleEducationalExplanation question (cleanContent c) sections activeId"
    by (simp add: demoAnswer_def generateRuleBasedAnswer_def)
next
  assume "trim c \<noteq> [] \<and> \<not> isEducationalExplanationRequest question \<and>
    paragraphsOf (cleanContent c) = []"
  then show "demoAnswer None question c sections activeId = insufficientContentMessage"
    by (simp add: demoAnswer_def generateRuleBasedAnswer_def)
next
  assume "trim c \<noteq> [] \<and> \<not> isEducationalExplanationRequest question \<and>
    paragraphsOf (cleanContent c) \<noteq> [] \<and>
    relevantParagraphs question (paragraphsOf (cleanContent c)) = []"
  then show "demoAnswer None question c sections activeId
        = couldNotFindMessage (getSourceInfo sections activeId)"
    by (simp add: demoAnswer_def generateRuleBasedAnswer_def generateEnhancedFallback_def)
qed


theorem demoAnswer_paths_witness:
  "trim ''  '' = [] \<and>
   demoAnswer None ''cats?'' ''  '' [] None = noContentMessage \<and>
   trim ''Cats are small mammals that purr a lot.'' \<noteq> [] \<and>
   isEducationalExplanationRequest ''explain cats'' \<and>
   demoAnswer None ''explain cats'' ''Cats are small mammals that purr a lot.'' [] None
     = handleEducationalExplanation ''explain cats''
         (cleanContent ''Cats are small mammals that purr a lot.'') [] None \<and>
   trim ''Cats purr.'' \<noteq> [] \<and>
   \<not> isEducationalExplanationRequest ''cats?'' \<and>
   paragraphsOf (cleanContent ''Cats purr.'') = [] \<and>
   demoAnswer None ''cats?'' ''Cats purr.'' [] None = insufficientContentMessage \<and>
   trim ''Photosynthesis converts light energy into chemical energy in plants.'' \<noteq> [] \<and>
   \<not> isEducationalExplanationRequest ''photo'' \<and>
   paragraphsOf
     (cleanContent ''Photosynthesis converts light energy into chemical energy in plants.'') \<noteq> [] \<and>
   relevantParagraphs ''photo''
     (paragraphsOf
        (cleanContent ''Photosynthesis converts light energy into chemical energy in plants.'')) = [] \<and>
   demoAnswer None ''photo''
      ''Photosynthesis converts light energy into chemical energy in plants.'' [] None
     = couldNotFindMessage ''Source information not available'' \<and>
   demoAnswer None ''photo''
      ''Photosynthesis converts light energy into chemical energy in plants.'' [] None \<noteq> []"
proof -
  let ?blank = "''  ''"
  let ?cats = "''Cats are small mammals that purr a lot.''"
  let ?purr = "''Cats purr.''"
  let ?c1 = "''Photosynthesis converts light energy into chemical energy in plants.''"
  have t0: "trim ?blank = []" by code_simp
  have t1: "trim ?cats \<noteq> []" by code_simp
  have t2: "trim ?purr \<noteq> []" by code_simp
  have t3: "trim ?c1 \<noteq> []" by code_simp
  have e1: "isEducationalExplanationRequest ''explain cats''" by code_simp
  have e2: "\<not> isEducationalExplanationRequest ''cats?''" by code_simp
  have e3: "\<not> isEducationalExplanationRequest ''photo''" by code_simp
  have p2: "paragraphsOf (cleanContent ?purr) = []" by code_simp
  have cc: "cleanContent ?c1 = ?c1" by code_simp
  have pc: "paragraphsOf ?c1 = [?c1]" by code_simp
  have p3: "paragraphsOf (cleanContent ?c1) \<noteq> []" by (simp only: cc pc) simp
  have r3: "relevantParagraphs ''photo'' (paragraphsOf (cleanContent ?c1)) = []"
    by (simp only: cc pc photo_example_not_relevant)
  have s: "getSourceInfo [] None = ''Source information not available''"
    by (simp add: getSourceInfo_def activeSection_def)
  note a = demoAnswer_paths [of "''cats?''" ?blank "[]" None]
  note b = demoAnswer_paths [of "''explain cats''" ?cats "[]" None]
  note c = demoAnswer_paths [of "''cats?''" ?purr "[]" None]
  note d = demoAnswer_paths [of "''photo''" ?c1 "[]" None]
  from a t0 have g0: "demoAnswer None ''cats?'' ?blank [] None = noContentMessage"
    by (simp only:) 
  from b [THEN conjunct2, THEN conjunct2, THEN conjunct1, rule_format, OF conjI [OF t1 e1]]
  have g1: "demoAnswer None ''explain cats'' ?cats [] None
              = handleEducationalExplanation ''explain cats'' (cleanContent ?cats) [] None" .
  from c [THEN conjunct2, THEN conjunct2, THEN conjunct2, THEN conjunct1, rule_format,
          OF conjI [OF t2 conjI [OF e2 p2]]]
  have g2: "demoAnswer None ''cats?'' ?purr [] None = insufficientContentMessage" .
  from d [THEN conjunct2, THEN conjunct2, THEN conjunct2, THEN conjunct2, rule_format,
          OF conjI [OF t3 conjI [OF e3 conjI [OF p3 r3]]]]
  have g3: "demoAnswer None ''photo'' ?c1 [] None
              = couldNotFindMessage ''Source information not available''"
    by (simp only: s)
  note g4 = d [THEN conjunct1]
  show ?thesis by (intro conjI) (rule t0 g0 t1 e1 g1 t2 e2 p2 g2 t3 e3 p3 r3 g3 g4)+
qed

text \<open>
  The claim as it stands, that a context with no surviving paragraph yields the
  insufficient-content message, fails for a question with an explanation keyword: the check
  for such a question comes first, and with a context of 39 characters it answers from the
  context.
\<close>

theorem demoAnswer_educational_counterexample:
  "trim ''Cats are small mammals that purr a lot.'' \<noteq> [] \<and>
   paragraphsOf (cleanContent ''Cats are small mammals that purr a lot.'') = [] \<and>
   demoAnswer None ''explain cats'' ''Cats are small mammals that purr a lot.'' [] None
     = ''Based on the content, here'' @ [CHR 0x27] @ ''s an explanation:'' @ [CHR 0x0A, CHR 0x0A]
       @ ''Cats are small mammals that purr a lot'' @ [CHR 0x0A, CHR 0x0A]
       @ ''Key concepts mentioned: cats'' @ [CHR 0x0A, CHR 0x0A]
       @ ''Would you like me to elaborate on any specific aspect?'' \<and>
   demoAnswer None ''explain cats'' ''Cats are small mammals that purr a lot.'' [] None
     \<noteq> insufficientContentMessage"
proof -
  let ?cats = "''Cats are small mammals that purr a lot.''"
  let ?out = "''Based on the content, here'' @ [CHR 0x27] @ ''s an explanation:'' @ [CHR 0x0A, CHR 0x0A]
       @ ''Cats are small mammals that purr a lot'' @ [CHR 0x0A, CHR 0x0A]
       @ ''Key concepts mentioned: cats'' @ [CHR 0x0A, CHR 0x0A]
       @ ''Would you like me to elaborate on any specific aspect?''"
  have t1: "trim ?cats \<noteq> []" by code_simp
  have e1: "isEducationalExplanationRequest ''explain cats''" by code_simp
  have p1: "paragraphsOf (cleanContent ?cats) = []" by code_simp
  have h: "handleEducationalExplanation ''explain cats'' (cleanContent ?cats) [] None = ?out"
    by code_simp
  have g: "demoAnswer None ''explain cats'' ?cats [] None = ?out"
    using t1 e1 by (simp only: demoAnswer_def generateRuleBasedAnswer_def h) simp
  have n: "demoAnswer None ''explain cats'' ?cats [] None \<noteq> insufficientContentMessage"
    unfolding g by (simp add: insufficientContentMessage_def)
  show ?thesis by (intro conjI) (rule t1 p1 g n)+
qed


subsection \<open>The citation\<close>

lemma find_None_no_match: "find P xs = None \<longleftrightarrow> (\<forall>x\<in>set xs. \<not> P x)"
  by (induction xs) auto

text \<open>
  C10. The citation. When the list of sections is not empty and no section has the active
  identifier, \<open>getSourceInfo\<close> cites the first section of the list, by its title and its
  page information; the paragraphs that the ranking chose are no argument of it. The text
  \<open>Source information not available\<close> comes out exactly when the list is empty.
\<close>

theorem getSourceInfo_first_section:
  "(sections \<noteq> [] \<and> (\<forall>s \<in> set sections. Some (id_sec s) \<noteq> activeId) \<longrightarrow>
      getSourceInfo sections activeId =
        ''Based on '' @ [CHR 0x22] @ title (hd sections) @ [CHR 0x22] @ '' from ''
          @ pageInfo (hd sections)) \<and>
   (getSourceInfo sections activeId = ''Source information not available''
      \<longleftrightarrow> sections = [])"
proof (intro conjI impI)
  assume a: "sections \<noteq> [] \<and> (\<forall>s \<in> set sections. Some (id_sec s) \<noteq> activeId)"
  then have "find (\<lambda>s. Some (id_sec s) = activeId) sections = None"
    by (simp add: find_None_no_match)
  with a show "getSourceInfo sections activeId =
        ''Based on '' @ [CHR 0x22] @ title (hd sections) @ [CHR 0x22] @ '' from ''
          @ pageInfo (hd sections)"
    by (cases sections) (simp_all add: getSourceInfo_def activeSection_def)
next
  show "getSourceInfo sections activeId = ''Source information not available''
      \<longleftrightarrow> sections = []"
    by (cases sections)
       (auto simp: getSourceInfo_def activeSection_def split: option.splits)
qed

theorem getSourceInfo_first_section_witness:
  "[\<lparr> id_sec = ''a'', sourceId = ''doc'', title = ''Origins'', startPage = Some 1,
       endPage = Some 4, text_sec = ''x'', tokensEstimated = 1 \<rparr>,
    \<lparr> id_sec = ''b'', sourceId = ''doc'', title = ''Later'', startPage = Some 5,
       endPage = Some 9, text_sec = ''y'', tokensEstimated = 1 \<rparr>] \<noteq> [] \<and>
   list_all (\<lambda>s. Some (id_sec s) \<noteq> Some ''c'')
     [\<lparr> id_sec = ''a'', sourceId = ''doc'', title = ''Origins'', startPage = Some 1,
        endPage = Some 4, text_sec = ''x'', tokensEstimated = 1 \<rparr>,
      \<lparr> id_sec = ''b'', sourceId = ''doc'', title = ''Later'', startPage = Some 5,
        endPage = Some 9, text_sec = ''y'', tokensEstimated = 1 \<rparr>] \<and>
   getSourceInfo
     [\<lparr> id_sec = ''a'', sourceId = ''doc'', title = ''Origins'', startPage = Some 1,
        endPage = Some 4, text_sec = ''x'', tokensEstimated = 1 \<rparr>,
      \<lparr> id_sec = ''b'', sourceId = ''doc'', title = ''Later'', startPage = Some 5,
        endPage = Some 9, text_sec = ''y'', tokensEstimated = 1 \<rparr>] (Some ''c'')
     = ''Based on '' @ [CHR 0x22] @ ''Origins'' @ [CHR 0x22] @ '' from pages 1-4'' \<and>
   getSourceInfo [] (Some ''c'') = ''Source information not available''"
proof -
  have n1: "showNat 1 = ''1''" and n4: "showNat 4 = ''4''" by code_simp+
  show ?thesis
    using getSourceInfo_first_section
      [of "[\<lparr> id_sec = ''a'', sourceId = ''doc'', title = ''Origins'', startPage = Some 1,
              endPage = Some 4, text_sec = ''x'', tokensEstimated = 1 \<rparr>,
            \<lparr> id_sec = ''b'', sourceId = ''doc'', title = ''Later'', startPage = Some 5,
              endPage = Some 9, text_sec = ''y'', tokensEstimated = 1 \<rparr>]" "Some ''c''"]
      getSourceInfo_first_section [of "[]" "Some ''c''"]
    by (simp add: pageInfo_def truthy_def n1 n4)
qed

end
